theory Spec2Isabelle
  imports Main
begin

section \<open>Data model of rpc.go\<close>

text \<open>
  A Go channel value \<open>chan *paho.Publish\<close>: either \<open>nil\<close> or a reference to a
  channel created by \<open>make\<close>. Channels are identified by a number; every
  \<open>make\<close> yields a number never used before.
\<close>

datatype chanref = NilChan | Chan nat

text \<open>Pointers \<open>*paho.Publish\<close> and \<open>*paho.PublishProperties\<close> are addresses into a store.\<close>

type_synonym addr = nat

text \<open>
  The fields of \<open>paho.PublishProperties\<close> and \<open>paho.Publish\<close> (types of the MQTT
  client library). \<open>CorrelationData\<close> is a byte slice: \<open>None\<close> is the nil slice.
  \<open>Properties\<close> is a pointer: \<open>None\<close> is nil.
\<close>

record PublishProperties =
  CorrelationData :: "string option"
  ContentType :: string
  ResponseTopic :: string
  User :: "(string \<times> string) list"

record Publish =
  QoS :: nat
  Retain :: bool
  Topic :: string
  Properties :: "addr option"
  Payload :: string

text \<open>The zero value \<open>paho.PublishProperties{}\<close>.\<close>

definition zero_PublishProperties :: PublishProperties where
  "zero_PublishProperties =
     \<lparr>CorrelationData = None, ContentType = [], ResponseTopic = [], User = []\<rparr>"

record store =
  publishes :: "addr \<rightharpoonup> Publish"
  props :: "addr \<rightharpoonup> PublishProperties"

text \<open>
  \<open>Handler\<close>: the embedded mutex is the atomicity of \<open>addCorrelID\<close> and
  \<open>getCorrelIDChan\<close>; of the client \<open>c\<close> only \<open>c.ClientID\<close> is read.
\<close>

record Handler =
  ClientID :: string
  correlData :: "string \<rightharpoonup> chanref"
  requestTimeout :: int

record HandlerInput =
  Server :: string
  Username :: "string option"
  Password :: "string option"
  RequestTimeout :: int

text \<open>
  Go \<open>error\<close> values: the package's \<open>ErrRequestTimeout\<close>, what \<open>ctx.Err()\<close>
  returns once \<open>ctx.Done()\<close> is closed, and any other error (of the transport).
\<close>

datatype ctx_cause = Canceled | DeadlineExceeded

datatype error = ErrRequestTimeout | ContextErr ctx_cause | TransportErr string

section \<open>Handler construction and the registry\<close>

text \<open>\<open>fmt.Sprintf("%s/responses", id)\<close>.\<close>

definition responses_topic :: "string \<Rightarrow> string" where
  "responses_topic cid = cid @ ''/responses''"

text \<open>
  \<open>NewHandler\<close>, given what \<open>mqttConnect\<close> returns (an error or the connected
  client's identifier) and what \<open>Subscribe\<close> returns. The result is the handler together
  with the topic whose messages are routed to \<open>responseHandler\<close> and the topic subscribed.
\<close>

definition NewHandler ::
  "error + string \<Rightarrow> error option \<Rightarrow> HandlerInput \<Rightarrow> error + (Handler \<times> string \<times> string)" where
  "NewHandler connected subscribed inp =
     (case connected of
        Inl err \<Rightarrow> Inl err
      | Inr clientID \<Rightarrow>
          let h = \<lparr>ClientID = clientID, correlData = Map.empty,
                   requestTimeout = RequestTimeout inp\<rparr>
          in (case subscribed of
                Some err \<Rightarrow> Inl err
              | None \<Rightarrow> Inr (h, responses_topic (ClientID h), responses_topic (ClientID h))))"

definition addCorrelID :: "Handler \<Rightarrow> string \<Rightarrow> chanref \<Rightarrow> Handler" where
  "addCorrelID h cID r = h\<lparr>correlData := (correlData h)(cID \<mapsto> r)\<rparr>"

text \<open>
  \<open>getCorrelIDChan\<close>: indexing a Go map at an absent key gives the zero value, the nil
  channel; \<open>delete\<close> of an absent key does nothing. The result is the channel read and
  the handler afterwards.
\<close>

definition getCorrelIDChan :: "Handler \<Rightarrow> string \<Rightarrow> chanref \<times> Handler" where
  "getCorrelIDChan h cID =
     (let rChan = (case correlData h cID of None \<Rightarrow> NilChan | Some r \<Rightarrow> r)
      in (rChan, h\<lparr>correlData := (correlData h)(cID := None)\<rparr>))"

section \<open>The response router\<close>

text \<open>
  What \<open>responseHandler\<close> reads of its message: \<open>None\<close> when a pointer is not allocated
  (no Go value), \<open>Some None\<close> when \<open>pb.Properties == nil || pb.Properties.CorrelationData
  == nil\<close>, and otherwise the correlation data as a string.
\<close>

definition read_correlation :: "store \<Rightarrow> addr \<Rightarrow> string option option" where
  "read_correlation st p =
     (case publishes st p of
        None \<Rightarrow> None
      | Some m \<Rightarrow>
          (case Properties m of
             None \<Rightarrow> Some None
           | Some q \<Rightarrow>
               (case props st q of
                  None \<Rightarrow> None
                | Some pr \<Rightarrow> Some (CorrelationData pr))))"

text \<open>
  \<open>responseHandler\<close> up to its last statement. It either returns (\<open>Dropped\<close>) or
  arrives at the send \<open>rChan <- pb\<close> holding the key it looked up, the channel it found
  and the message (\<open>SendTo key rChan pb\<close>); the send itself is a step of the concurrent
  system below.
\<close>

datatype delivery = Dropped | SendTo string chanref addr

definition responseHandler :: "Handler \<Rightarrow> store \<Rightarrow> addr \<Rightarrow> (Handler \<times> delivery) option" where
  "responseHandler h st p =
     (case read_correlation st p of
        None \<Rightarrow> None
      | Some None \<Rightarrow> Some (h, Dropped)
      | Some (Some cd) \<Rightarrow>
          (case getCorrelIDChan h cd of
             (rChan, h') \<Rightarrow>
               if rChan = NilChan then Some (h', Dropped) else Some (h', SendTo cd rChan p)))"

section \<open>The request dispatcher\<close>

text \<open>
  The result pair of \<open>Request\<close>: \<open>Inl err\<close> is \<open>(nil, err)\<close>, \<open>Inr resp\<close> is
  \<open>(resp, nil)\<close>. Lines 127 to 130 decide on the error of \<open>h.c.Publish\<close> whether the
  call returns at once; the arms of the \<open>select\<close> (lines 132 to 141) give the result of
  a call that waits.
\<close>

type_synonym result = "error + addr"

datatype select_arm = TimerFired | ContextDone ctx_cause | Received addr

definition Request_select :: "select_arm \<Rightarrow> result" where
  "Request_select arm =
     (case arm of
        TimerFired \<Rightarrow> Inl ErrRequestTimeout
      | ContextDone cause \<Rightarrow> Inl (ContextErr cause)
      | Received resp \<Rightarrow> Inr resp)"

text \<open>
  Where a call of \<open>Request\<close> stands after \<open>addCorrelID\<close> (line 117). Lines 119 to 125
  run without any lock, so every read or write of the caller's message is a point of its
  own: the test of \<open>pb.Properties\<close> (line 119), the assignment of a new struct (line
  120), the load of \<open>pb.Properties\<close> and the store through the loaded pointer of line 123
  and of line 124, the store of \<open>pb.Retain\<close> (line 125); then the call of
  \<open>h.c.Publish\<close> (line 127), the \<open>select\<close>, and the return. \<open>Panicked\<close> is a nil
  pointer dereference in line 123 or 124.
\<close>

datatype call_pc =
    AtCheck
  | AtAlloc
  | AtCorrelLoad
  | AtCorrelStore addr
  | AtTopicLoad
  | AtTopicStore addr
  | AtRetain
  | AtPublish
  | AtSelect
  | Panicked
  | Returned result

text \<open>
  One memory access of lines 119 to 125, from the point \<open>pc\<close>, on the store as it is at
  that moment; the result is the store and the point afterwards. \<open>fresh\<close> is the address
  the allocator returns for \<open>&paho.PublishProperties{}\<close> in line 120; it must not be
  allocated yet. \<open>None\<close> when a pointer is not allocated (no Go value) or \<open>pc\<close> is not a
  point of these lines.
\<close>

definition Request_advance ::
  "Handler \<Rightarrow> store \<Rightarrow> addr \<Rightarrow> addr \<Rightarrow> string \<Rightarrow> call_pc \<Rightarrow> (store \<times> call_pc) option" where
  "Request_advance h st fresh p cID pc =
     (case publishes st p of
        None \<Rightarrow> None
      | Some m \<Rightarrow>
          (case pc of
             AtCheck \<Rightarrow> Some (st, if Properties m = None then AtAlloc else AtCorrelLoad)
           | AtAlloc \<Rightarrow>
               if props st fresh \<noteq> None then None
               else Some (st\<lparr>publishes := (publishes st)(p \<mapsto> m\<lparr>Properties := Some fresh\<rparr>),
                            props := (props st)(fresh \<mapsto> zero_PublishProperties)\<rparr>,
                          AtCorrelLoad)
           | AtCorrelLoad \<Rightarrow>
               Some (st, case Properties m of None \<Rightarrow> Panicked | Some q \<Rightarrow> AtCorrelStore q)
           | AtCorrelStore q \<Rightarrow>
               (case props st q of
                  None \<Rightarrow> None
                | Some pr \<Rightarrow>
                    Some (st\<lparr>props := (props st)(q \<mapsto> pr\<lparr>CorrelationData := Some cID\<rparr>)\<rparr>,
                          AtTopicLoad))
           | AtTopicLoad \<Rightarrow>
               Some (st, case Properties m of None \<Rightarrow> Panicked | Some q \<Rightarrow> AtTopicStore q)
           | AtTopicStore q \<Rightarrow>
               (case props st q of
                  None \<Rightarrow> None
                | Some pr \<Rightarrow>
                    Some (st\<lparr>props := (props st)(q \<mapsto>
                               pr\<lparr>ResponseTopic := responses_topic (ClientID h)\<rparr>)\<rparr>,
                          AtRetain))
           | AtRetain \<Rightarrow>
               Some (st\<lparr>publishes := (publishes st)(p \<mapsto> m\<lparr>Retain := False\<rparr>)\<rparr>, AtPublish)
           | _ \<Rightarrow> None))"

text \<open>
  What \<open>h.c.Publish\<close> is handed: the message behind \<open>pb\<close> with the properties behind
  \<open>pb.Properties\<close>.
\<close>

definition envelope :: "store \<Rightarrow> addr \<Rightarrow> (Publish \<times> PublishProperties) option" where
  "envelope st p =
     (case publishes st p of
        None \<Rightarrow> None
      | Some m \<Rightarrow>
          (case Properties m of
             None \<Rightarrow> None
           | Some q \<Rightarrow> (case props st q of None \<Rightarrow> None | Some pr \<Rightarrow> Some (m, pr))))"

section \<open>The concurrent system\<close>

text \<open>
  A call of \<open>Request\<close> is a frame: its argument \<open>pb\<close>, its locals \<open>cID\<close> and
  \<open>rChan\<close>, and where it stands. A call of \<open>responseHandler\<close> that reached its send is
  a frame too: blocked in the send, or returned after it.
\<close>

record call_frame =
  call_pb :: addr
  call_cID :: string
  call_rChan :: chanref
  call_pc :: call_pc

datatype router_pc = AtSend | Sent

record router_frame =
  rh_pb :: addr
  rh_key :: string
  rh_rChan :: chanref
  rh_pc :: router_pc

record system =
  handler :: Handler
  heap :: store
  calls :: "nat \<rightharpoonup> call_frame"
  routers :: "nat \<rightharpoonup> router_frame"
  nextChan :: nat

text \<open>
  The atomic steps. \<open>Invoke i pb cID\<close>: a new call \<open>i\<close> runs lines 114 to 117 with
  \<open>cID\<close> what \<open>uuid.New().String()\<close> returns. \<open>Prepare i fresh\<close>: call \<open>i\<close> does its
  next memory access of lines 119 to 125. \<open>Publishes i err\<close>: call \<open>i\<close> runs lines 127
  to 130, \<open>err\<close> what \<open>h.c.Publish\<close> returns; what it hands to \<open>h.c.Publish\<close> is the
  \<open>envelope\<close> behind \<open>pb\<close> at that moment. \<open>TimerFires i\<close> and \<open>CtxDone i cause\<close>:
  the first two arms of the \<open>select\<close> of call \<open>i\<close>. \<open>Arrives k pb\<close>: the transport
  calls \<open>responseHandler\<close> (invocation \<open>k\<close>), which runs up to its send.
  \<open>Handoff k i\<close>: the send of router \<open>k\<close> and the receive arm of call \<open>i\<close> meet on the
  unbuffered channel.

  A step that the code cannot take in a state is \<open>None\<close>. Durations are not part of
  the model: the timer of \<open>time.After(h.requestTimeout)\<close> may fire at any moment while
  the call stands in its \<open>select\<close>, and so may \<open>ctx.Done()\<close>. The numbers \<open>i\<close> and
  \<open>k\<close> name the invocations; each names one invocation only.
\<close>

datatype event =
    Invoke nat addr string
  | Prepare nat addr
  | Publishes nat "error option"
  | TimerFires nat
  | CtxDone nat ctx_cause
  | Arrives nat addr
  | Handoff nat nat

definition invoke :: "system \<Rightarrow> nat \<Rightarrow> addr \<Rightarrow> string \<Rightarrow> system option" where
  "invoke s i p cID =
     (if calls s i \<noteq> None \<or> publishes (heap s) p = None then None
      else
        let rChan = Chan (nextChan s)
        in Some (s\<lparr>handler := addCorrelID (handler s) cID rChan,
                   calls := (calls s)(i \<mapsto>
                     \<lparr>call_pb = p, call_cID = cID, call_rChan = rChan, call_pc = AtCheck\<rparr>),
                   nextChan := Suc (nextChan s)\<rparr>))"

definition prepare :: "system \<Rightarrow> nat \<Rightarrow> addr \<Rightarrow> system option" where
  "prepare s i fresh =
     (case calls s i of
        None \<Rightarrow> None
      | Some f \<Rightarrow>
          (case Request_advance (handler s) (heap s) fresh (call_pb f) (call_cID f) (call_pc f) of
             None \<Rightarrow> None
           | Some (st, pc) \<Rightarrow>
               Some (s\<lparr>heap := st, calls := (calls s)(i \<mapsto> f\<lparr>call_pc := pc\<rparr>)\<rparr>)))"

definition publishes_step :: "system \<Rightarrow> nat \<Rightarrow> error option \<Rightarrow> system option" where
  "publishes_step s i err =
     (case calls s i of
        None \<Rightarrow> None
      | Some f \<Rightarrow>
          if call_pc f \<noteq> AtPublish then None
          else
            Some (s\<lparr>calls := (calls s)(i \<mapsto>
                       f\<lparr>call_pc := (case err of
                                       Some e \<Rightarrow> Returned (Inl e)
                                     | None \<Rightarrow> AtSelect)\<rparr>)\<rparr>))"

definition resolve :: "system \<Rightarrow> nat \<Rightarrow> select_arm \<Rightarrow> system option" where
  "resolve s i arm =
     (case calls s i of
        None \<Rightarrow> None
      | Some f \<Rightarrow>
          if call_pc f \<noteq> AtSelect then None
          else Some (s\<lparr>calls := (calls s)(i \<mapsto> f\<lparr>call_pc := Returned (Request_select arm)\<rparr>)\<rparr>))"

definition arrives :: "system \<Rightarrow> nat \<Rightarrow> addr \<Rightarrow> system option" where
  "arrives s k p =
     (if routers s k \<noteq> None then None
      else
        (case responseHandler (handler s) (heap s) p of
           None \<Rightarrow> None
         | Some (h, Dropped) \<Rightarrow> Some (s\<lparr>handler := h\<rparr>)
         | Some (h, SendTo key rChan pb) \<Rightarrow>
             Some (s\<lparr>handler := h,
                      routers := (routers s)(k \<mapsto>
                        \<lparr>rh_pb = pb, rh_key = key, rh_rChan = rChan, rh_pc = AtSend\<rparr>)\<rparr>)))"

definition handoff :: "system \<Rightarrow> nat \<Rightarrow> nat \<Rightarrow> system option" where
  "handoff s k i =
     (case routers s k of
        None \<Rightarrow> None
      | Some r \<Rightarrow>
          (case calls s i of
             None \<Rightarrow> None
           | Some f \<Rightarrow>
               if rh_pc r = AtSend \<and> call_pc f = AtSelect \<and> rh_rChan r = call_rChan f
               then
                 (case resolve s i (Received (rh_pb r)) of
                    None \<Rightarrow> None
                  | Some s' \<Rightarrow> Some (s'\<lparr>routers := (routers s')(k \<mapsto> r\<lparr>rh_pc := Sent\<rparr>)\<rparr>))
               else None))"

fun step :: "system \<Rightarrow> event \<Rightarrow> system option" where
  "step s (Invoke i p cID) = invoke s i p cID"
| "step s (Prepare i fresh) = prepare s i fresh"
| "step s (Publishes i err) = publishes_step s i err"
| "step s (TimerFires i) = resolve s i TimerFired"
| "step s (CtxDone i cause) = resolve s i (ContextDone cause)"
| "step s (Arrives k p) = arrives s k p"
| "step s (Handoff k i) = handoff s k i"

fun exec :: "system \<Rightarrow> event list \<Rightarrow> system option" where
  "exec s [] = Some s"
| "exec s (e # es) = (case step s e of None \<Rightarrow> None | Some s' \<Rightarrow> exec s' es)"

text \<open>The system right after \<open>NewHandler\<close> returned \<open>h\<close>, over a store of messages.\<close>

definition start :: "Handler \<Rightarrow> store \<Rightarrow> system" where
  "start h st = \<lparr>handler = h, heap = st, calls = Map.empty, routers = Map.empty, nextChan = 0\<rparr>"

section \<open>Invariants of the system\<close>

text \<open>\<open>owned s c r\<close>: some call of \<open>Request\<close> generated \<open>c\<close> and created \<open>r\<close>.\<close>

definition owned :: "system \<Rightarrow> string \<Rightarrow> chanref \<Rightarrow> bool" where
  "owned s c r \<longleftrightarrow> (\<exists>i f. calls s i = Some f \<and> call_cID f = c \<and> call_rChan f = r)"

definition chans_made :: "system \<Rightarrow> bool" where
  "chans_made s \<longleftrightarrow>
     (\<forall>i f. calls s i = Some f \<longrightarrow> (\<exists>n. call_rChan f = Chan n \<and> n < nextChan s))"

definition chans_distinct :: "system \<Rightarrow> bool" where
  "chans_distinct s \<longleftrightarrow>
     (\<forall>i j f g. calls s i = Some f \<and> calls s j = Some g \<and> call_rChan f = call_rChan g
        \<longrightarrow> i = j)"

definition registry_owned :: "system \<Rightarrow> bool" where
  "registry_owned s \<longleftrightarrow> (\<forall>c r. correlData (handler s) c = Some r \<longrightarrow> owned s c r)"

definition routers_owned :: "system \<Rightarrow> bool" where
  "routers_owned s \<longleftrightarrow>
     (\<forall>k r. routers s k = Some r \<longrightarrow> owned s (rh_key r) (rh_rChan r))"

definition replies_routed :: "system \<Rightarrow> bool" where
  "replies_routed s \<longleftrightarrow>
     (\<forall>i f p. calls s i = Some f \<and> call_pc f = Returned (Inr p) \<longrightarrow>
        (\<exists>k r. routers s k = Some r \<and> rh_pc r = Sent \<and> rh_pb r = p \<and>
               rh_key r = call_cID f \<and> rh_rChan r = call_rChan f))"

definition invariant :: "system \<Rightarrow> bool" where
  "invariant s \<longleftrightarrow>
     chans_made s \<and> chans_distinct s \<and> registry_owned s \<and> routers_owned s \<and> replies_routed s"

text \<open>
  \<open>kept s\<close>: the registry still holds the entry of every call, unless a router
  invocation took the key or another call generated the same identifier.
\<close>

definition kept :: "system \<Rightarrow> bool" where
  "kept s \<longleftrightarrow>
     (\<forall>i f. calls s i = Some f \<longrightarrow>
        correlData (handler s) (call_cID f) = Some (call_rChan f) \<or>
        (\<exists>k r. routers s k = Some r \<and> rh_key r = call_cID f) \<or>
        (\<exists>j g. j \<noteq> i \<and> calls s j = Some g \<and> call_cID g = call_cID f))"

text \<open>
  \<open>arrived s0 evs p c\<close>: in the run \<open>evs\<close> from \<open>s0\<close> the transport handed message
  \<open>p\<close> to \<open>responseHandler\<close> at a moment when its correlation data were \<open>c\<close>.
\<close>

definition arrived :: "system \<Rightarrow> event list \<Rightarrow> addr \<Rightarrow> string \<Rightarrow> bool" where
  "arrived s0 evs p c \<longleftrightarrow>
     (\<exists>evs1 k evs2 s1. evs = evs1 @ Arrives k p # evs2 \<and> exec s0 evs1 = Some s1 \<and>
        read_correlation (heap s1) p = Some (Some c))"

text \<open>
  \<open>blocked_forever s k\<close>: router invocation \<open>k\<close> stands at its send and no run from
  \<open>s\<close> changes that.
\<close>

definition blocked_forever :: "system \<Rightarrow> nat \<Rightarrow> bool" where
  "blocked_forever s k \<longleftrightarrow>
     (\<exists>r. routers s k = Some r \<and> rh_pc r = AtSend) \<and>
     \<not> (\<exists>evs s'. exec s evs = Some s' \<and> routers s' k \<noteq> routers s k)"

section \<open>Messages that no two calls write at the same time\<close>









text \<open>
  What a call has written when it stands at \<open>call_pc f\<close> and nobody else writes to its
  message or to the struct behind it.
\<close>

definition correl_written :: "system \<Rightarrow> call_frame \<Rightarrow> bool" where
  "correl_written s f \<longleftrightarrow>
     (\<exists>m pr. envelope (heap s) (call_pb f) = Some (m, pr) \<and>
        CorrelationData pr = Some (call_cID f))"

definition topic_written :: "system \<Rightarrow> call_frame \<Rightarrow> bool" where
  "topic_written s f \<longleftrightarrow>
     (\<exists>m pr. envelope (heap s) (call_pb f) = Some (m, pr) \<and>
        ResponseTopic pr = responses_topic (ClientID (handler s)))"

definition retain_written :: "system \<Rightarrow> call_frame \<Rightarrow> bool" where
  "retain_written s f \<longleftrightarrow>
     (\<exists>m. publishes (heap s) (call_pb f) = Some m \<and> Retain m = False)"

definition points_to :: "system \<Rightarrow> call_frame \<Rightarrow> addr \<Rightarrow> bool" where
  "points_to s f q \<longleftrightarrow>
     (\<exists>m. publishes (heap s) (call_pb f) = Some m \<and> Properties m = Some q)"

definition progress :: "system \<Rightarrow> call_frame \<Rightarrow> bool" where
  "progress s f =
     (case call_pc f of
        AtCheck \<Rightarrow> True
      | AtAlloc \<Rightarrow> (\<exists>m. publishes (heap s) (call_pb f) = Some m \<and> Properties m = None)
      | AtCorrelLoad \<Rightarrow> (\<exists>q. points_to s f q)
      | AtCorrelStore q \<Rightarrow> points_to s f q
      | AtTopicLoad \<Rightarrow> correl_written s f
      | AtTopicStore q \<Rightarrow> points_to s f q \<and> correl_written s f
      | AtRetain \<Rightarrow> correl_written s f \<and> topic_written s f
      | Panicked \<Rightarrow> False
      | _ \<Rightarrow> correl_written s f \<and> topic_written s f \<and> retain_written s f)"





text \<open>
  A call between the test of line 119 and the load of line 124 finds the properties
  pointer of its message set, and no call has dereferenced nil.
\<close>

definition loaded :: "system \<Rightarrow> bool" where
  "loaded s \<longleftrightarrow>
     (\<forall>i f. calls s i = Some f \<longrightarrow> call_pc f \<noteq> Panicked \<and>
        (call_pc f = AtCorrelLoad \<or> (\<exists>q. call_pc f = AtCorrelStore q) \<or> call_pc f = AtTopicLoad
           \<longrightarrow> (\<exists>m q. publishes (heap s) (call_pb f) = Some m \<and> Properties m = Some q)))"

section \<open>A handler and a store to run the system on\<close>

definition handler0 :: Handler where
  "handler0 = \<lparr>ClientID = ''client-7'', correlData = Map.empty, requestTimeout = 200\<rparr>"

text \<open>
  A request message at address 0 without properties, a reply at address 1 echoing
  \<open>''id-1''\<close>, a request at address 2 with properties of the caller's at address 6, a
  message at address 3 without correlation data.
\<close>

definition store0 :: store where
  "store0 =
     \<lparr>publishes =
        [0 \<mapsto> \<lparr>QoS = 1, Retain = True, Topic = ''svc/echo'', Properties = None,
                Payload = ''ping''\<rparr>,
         1 \<mapsto> \<lparr>QoS = 1, Retain = False, Topic = ''client-7/responses'', Properties = Some 5,
                Payload = ''pong''\<rparr>,
         2 \<mapsto> \<lparr>QoS = 0, Retain = True, Topic = ''svc/sum'', Properties = Some 6,
                Payload = ''1+2''\<rparr>,
         3 \<mapsto> \<lparr>QoS = 0, Retain = False, Topic = ''client-7/responses'', Properties = Some 4,
                Payload = ''noise''\<rparr>],
      props =
        [5 \<mapsto> \<lparr>CorrelationData = Some ''id-1'', ContentType = [], ResponseTopic = [],
                User = []\<rparr>,
         6 \<mapsto> \<lparr>CorrelationData = Some ''mine'', ContentType = ''text/plain'',
                ResponseTopic = ''elsewhere'', User = [(''k'', ''v'')]\<rparr>,
         4 \<mapsto> \<lparr>CorrelationData = None, ContentType = [], ResponseTopic = [], User = []\<rparr>]\<rparr>"

text \<open>
  The memory accesses of lines 119 to 125 of call \<open>i\<close> in a row: seven when the message
  has no properties (test, assignment of the struct at \<open>fresh\<close>, load, store, load, store,
  store), six when it has (no assignment; no address is needed).
\<close>

definition writes_new :: "nat \<Rightarrow> addr \<Rightarrow> event list" where
  "writes_new i fresh =
     [Prepare i fresh, Prepare i fresh, Prepare i fresh, Prepare i fresh, Prepare i fresh,
      Prepare i fresh, Prepare i fresh]"

definition writes_given :: "nat \<Rightarrow> event list" where
  "writes_given i =
     [Prepare i 0, Prepare i 0, Prepare i 0, Prepare i 0, Prepare i 0, Prepare i 0]"

definition input0 :: HandlerInput where
  "input0 = \<lparr>Server = ''broker:1883'', Username = None, Password = None, RequestTimeout = 200\<rparr>"

section \<open>What each step does\<close>

lemmas inv_defs = chans_made_def chans_distinct_def registry_owned_def routers_owned_def
  replies_routed_def owned_def

lemma exec_append:
  "exec s (es @ es') = (case exec s es of None \<Rightarrow> None | Some s' \<Rightarrow> exec s' es')"
  by (induction es arbitrary: s) (auto split: option.splits)

lemma getCorrelIDChan_absent:
  "correlData h cd = None \<Longrightarrow> getCorrelIDChan h cd = (NilChan, h)"
  by (simp add: getCorrelIDChan_def Let_def fun_upd_idem)

lemma invoke_effect:
  assumes "invoke s i p c = Some s'"
  shows "calls s i = None" "publishes (heap s) p \<noteq> None"
    "calls s' = (calls s)(i \<mapsto>
       \<lparr>call_pb = p, call_cID = c, call_rChan = Chan (nextChan s), call_pc = AtCheck\<rparr>)"
    "correlData (handler s') = (correlData (handler s))(c \<mapsto> Chan (nextChan s))"
    "ClientID (handler s') = ClientID (handler s)"
    "routers s' = routers s" "heap s' = heap s" "nextChan s' = Suc (nextChan s)"
  using assms by (auto simp: invoke_def Let_def addCorrelID_def split: if_splits)

lemma Request_advance_pc:
  assumes "Request_advance h st fresh p c pc = Some (st', pc')"
  shows "pc \<noteq> AtPublish \<and> pc \<noteq> AtSelect \<and> pc \<noteq> Panicked \<and> (\<forall>r. pc \<noteq> Returned r) \<and>
         pc' \<noteq> AtSelect \<and> pc' \<noteq> AtCheck \<and> (\<forall>r. pc' \<noteq> Returned r)"
  using assms
  by (auto simp: Request_advance_def split: option.splits call_pc.splits if_splits)

lemma prepare_effect:
  assumes "prepare s i fresh = Some s'"
  shows "\<exists>f pc. calls s i = Some f \<and>
           Request_advance (handler s) (heap s) fresh (call_pb f) (call_cID f) (call_pc f)
             = Some (heap s', pc) \<and>
           call_pc f \<noteq> AtPublish \<and> call_pc f \<noteq> AtSelect \<and> call_pc f \<noteq> Panicked \<and>
           (\<forall>r. call_pc f \<noteq> Returned r) \<and> pc \<noteq> AtSelect \<and> (\<forall>r. pc \<noteq> Returned r) \<and>
           calls s' = (calls s)(i \<mapsto> f\<lparr>call_pc := pc\<rparr>)"
    "handler s' = handler s" "routers s' = routers s" "nextChan s' = nextChan s"
  using assms
  by (auto simp: prepare_def split: option.splits dest: Request_advance_pc)

lemma publishes_effect:
  assumes "publishes_step s i err = Some s'"
  shows "\<exists>f. calls s i = Some f \<and> call_pc f = AtPublish \<and>
           calls s' = (calls s)(i \<mapsto> f\<lparr>call_pc := (case err of Some e \<Rightarrow> Returned (Inl e)
                                                        | None \<Rightarrow> AtSelect)\<rparr>)"
    "handler s' = handler s" "routers s' = routers s" "nextChan s' = nextChan s"
    "heap s' = heap s"
  using assms by (auto simp: publishes_step_def split: option.splits if_splits)

lemma resolve_effect:
  assumes "resolve s i arm = Some s'"
  shows "\<exists>f. calls s i = Some f \<and> call_pc f = AtSelect \<and>
           calls s' = (calls s)(i \<mapsto> f\<lparr>call_pc := Returned (Request_select arm)\<rparr>)"
    "handler s' = handler s" "routers s' = routers s" "nextChan s' = nextChan s"
    "heap s' = heap s"
  using assms by (auto simp: resolve_def split: option.splits if_splits)

lemma arrives_effect:
  assumes "arrives s k p = Some s'"
  shows "routers s k = None" "calls s' = calls s" "heap s' = heap s" "nextChan s' = nextChan s"
    "ClientID (handler s') = ClientID (handler s)"
    "\<And>c r. correlData (handler s') c = Some r \<Longrightarrow> correlData (handler s) c = Some r"
    "\<And>c n. routers s' = routers s \<Longrightarrow> correlData (handler s) c = Some (Chan n) \<Longrightarrow>
        correlData (handler s') c = Some (Chan n)"
    "routers s' = routers s \<or>
     (\<exists>cd r. read_correlation (heap s) p = Some (Some cd) \<and>
        correlData (handler s) cd = Some r \<and> r \<noteq> NilChan \<and>
        correlData (handler s') = (correlData (handler s))(cd := None) \<and>
        routers s' = (routers s)(k \<mapsto>
          \<lparr>rh_pb = p, rh_key = cd, rh_rChan = r, rh_pc = AtSend\<rparr>))"
  using assms 
  by (auto simp: arrives_def responseHandler_def getCorrelIDChan_def Let_def fun_upd_idem_iff
      split: option.splits if_splits delivery.splits)

lemma handoff_effect:
  assumes "handoff s k i = Some s'"
  shows "\<exists>r f. routers s k = Some r \<and> calls s i = Some f \<and> rh_pc r = AtSend \<and>
           call_pc f = AtSelect \<and> rh_rChan r = call_rChan f \<and>
           calls s' = (calls s)(i \<mapsto> f\<lparr>call_pc := Returned (Inr (rh_pb r))\<rparr>) \<and>
           routers s' = (routers s)(k \<mapsto> r\<lparr>rh_pc := Sent\<rparr>)"
    "handler s' = handler s" "nextChan s' = nextChan s" "heap s' = heap s"
  using assms
  by (auto simp: handoff_def resolve_def Request_select_def split: option.splits if_splits)

lemma owned_mono:
  assumes "owned s c r" "\<And>i f. calls s i = Some f \<Longrightarrow>
     \<exists>g. calls s' i = Some g \<and> call_cID g = call_cID f \<and> call_rChan g = call_rChan f"
  shows "owned s' c r"
  using assms unfolding owned_def by blast

lemma invoke_invariant:
  assumes "invariant s" "invoke s i p c = Some s'"
  shows "invariant s'"
proof -
  note e = invoke_effect[OF assms(2)]
  from assms(1) have m: "chans_made s" and d: "chans_distinct s" and ro: "registry_owned s"
    and rto: "routers_owned s" and rr: "replies_routed s"
    by (auto simp: invariant_def)
  have own: "owned s' x r" if "owned s x r" for x r
    using that by (rule owned_mono) (use e in auto)
  have "chans_made s'"
    using m e unfolding chans_made_def by (auto simp: less_Suc_eq)
  moreover have "chans_distinct s'"
    using m d e unfolding chans_made_def chans_distinct_def
    by (auto split: if_splits) (metis chanref.inject less_irrefl)+
  moreover have "registry_owned s'"
    unfolding registry_owned_def
  proof (intro allI impI)
    fix x r assume a: "correlData (handler s') x = Some r"
    show "owned s' x r"
    proof (cases "x = c")
      case True
      with a e have "r = Chan (nextChan s)" by simp
      with True e show ?thesis unfolding owned_def by auto
    next
      case False
      with a e have "correlData (handler s) x = Some r" by simp
      with ro have "owned s x r" unfolding registry_owned_def by blast
      then show ?thesis by (rule own)
    qed
  qed
  moreover have "routers_owned s'"
    using rto own e unfolding routers_owned_def by auto
  moreover have "replies_routed s'"
    using rr e unfolding replies_routed_def by (auto split: if_splits)
  ultimately show ?thesis by (simp add: invariant_def)
qed

lemma pc_update_invariant:
  assumes inv: "invariant s" and f: "calls s i = Some f"
    and c: "calls s' = (calls s)(i \<mapsto> f\<lparr>call_pc := x\<rparr>)"
    and h: "handler s' = handler s" and n: "nextChan s' = nextChan s"
    and r: "\<And>k r. routers s k = Some r \<Longrightarrow> \<exists>r'. routers s' k = Some r' \<and> rh_key r' = rh_key r \<and>
              rh_rChan r' = rh_rChan r \<and> rh_pb r' = rh_pb r \<and> (rh_pc r = Sent \<longrightarrow> rh_pc r' = Sent)"
    and r': "\<And>k r'. routers s' k = Some r' \<Longrightarrow> \<exists>r. routers s k = Some r \<and> rh_key r' = rh_key r \<and>
              rh_rChan r' = rh_rChan r"
    and x: "\<And>p. x = Returned (Inr p) \<Longrightarrow> \<exists>k r. routers s' k = Some r \<and> rh_pc r = Sent \<and>
              rh_pb r = p \<and> rh_key r = call_cID f \<and> rh_rChan r = call_rChan f"
  shows "invariant s'"
proof -
  from inv have m: "chans_made s" and d: "chans_distinct s" and ro: "registry_owned s"
    and rto: "routers_owned s" and rr: "replies_routed s"
    by (auto simp: invariant_def)
  have own: "owned s' y q" if "owned s y q" for y q
    using that by (rule owned_mono) (use f c in auto)
  have "chans_made s'"
    using m f c n unfolding chans_made_def by auto
  moreover have "chans_distinct s'"
    using d f c unfolding chans_distinct_def by (auto split: if_splits)
  moreover have "registry_owned s'"
    using ro own h unfolding registry_owned_def by auto
  moreover have "routers_owned s'"
    unfolding routers_owned_def
  proof (intro allI impI)
    fix k q assume "routers s' k = Some q"
    from r'[OF this] obtain q0 where "routers s k = Some q0" "rh_key q = rh_key q0"
      "rh_rChan q = rh_rChan q0" by blast
    with rto have "owned s (rh_key q) (rh_rChan q)" unfolding routers_owned_def by auto
    then show "owned s' (rh_key q) (rh_rChan q)" by (rule own)
  qed
  moreover have "replies_routed s'"
    unfolding replies_routed_def
  proof (intro allI impI, elim conjE)
    fix j g p assume g: "calls s' j = Some g" and pc: "call_pc g = Returned (Inr p)"
    show "\<exists>k r. routers s' k = Some r \<and> rh_pc r = Sent \<and> rh_pb r = p \<and>
            rh_key r = call_cID g \<and> rh_rChan r = call_rChan g"
    proof (cases "j = i")
      case True
      with g c have "g = f\<lparr>call_pc := x\<rparr>" by simp
      with pc x show ?thesis by simp
    next
      case False
      with g c have "calls s j = Some g" by simp
      with rr pc obtain k q where "routers s k = Some q" "rh_pc q = Sent" "rh_pb q = p"
        "rh_key q = call_cID g" "rh_rChan q = call_rChan g"
        unfolding replies_routed_def by blast
      with r[of k q] show ?thesis by auto
    qed
  qed
  ultimately show ?thesis by (simp add: invariant_def)
qed

lemma prepare_invariant:
  assumes "invariant s" "prepare s i a = Some s'"
  shows "invariant s'"
proof -
  note e = prepare_effect[OF assms(2)]
  from e(1) obtain f pc where f: "calls s i = Some f"
    and c: "calls s' = (calls s)(i \<mapsto> f\<lparr>call_pc := pc\<rparr>)"
    and pc: "\<forall>r. pc \<noteq> Returned r"
    by blast
  show ?thesis
    by (rule pc_update_invariant[OF assms(1) f c]) (use e(2-4) pc in auto)
qed

lemma publishes_invariant:
  assumes "invariant s" "publishes_step s i err = Some s'"
  shows "invariant s'"
proof -
  note e = publishes_effect[OF assms(2)]
  from e(1) obtain f where f: "calls s i = Some f"
    and c: "calls s' = (calls s)(i \<mapsto> f\<lparr>call_pc := (case err of Some e \<Rightarrow> Returned (Inl e)
                                                        | None \<Rightarrow> AtSelect)\<rparr>)"
    by blast
  show ?thesis
    by (rule pc_update_invariant[OF assms(1) f c]) (use e in \<open>auto split: option.splits\<close>)
qed

lemma resolve_invariant:
  assumes "invariant s" "resolve s i arm = Some s'" "\<And>p. arm \<noteq> Received p"
  shows "invariant s'"
proof -
  note e = resolve_effect[OF assms(2)]
  from e(1) obtain f where f: "calls s i = Some f"
    and c: "calls s' = (calls s)(i \<mapsto> f\<lparr>call_pc := Returned (Request_select arm)\<rparr>)"
    by blast
  show ?thesis
    by (rule pc_update_invariant[OF assms(1) f c])
      (use e assms(3) in \<open>auto simp: Request_select_def split: select_arm.splits\<close>)
qed

lemma handoff_invariant:
  assumes "invariant s" "handoff s k i = Some s'"
  shows "invariant s'"
proof -
  note e = handoff_effect[OF assms(2)]
  from e(1) obtain r f where r: "routers s k = Some r" and f: "calls s i = Some f"
    and pc: "rh_pc r = AtSend" "call_pc f = AtSelect" and ch: "rh_rChan r = call_rChan f"
    and c: "calls s' = (calls s)(i \<mapsto> f\<lparr>call_pc := Returned (Inr (rh_pb r))\<rparr>)"
    and rs: "routers s' = (routers s)(k \<mapsto> r\<lparr>rh_pc := Sent\<rparr>)"
    by blast
  from assms(1) have d: "chans_distinct s" and rto: "routers_owned s"
    by (auto simp: invariant_def)
  from rto r obtain j g where g: "calls s j = Some g" "call_cID g = rh_key r"
    "call_rChan g = rh_rChan r"
    unfolding routers_owned_def owned_def by blast
  with d f ch have "j = i" unfolding chans_distinct_def by metis
  with g f have key: "rh_key r = call_cID f" by simp
  show ?thesis
    by (rule pc_update_invariant[OF assms(1) f c])
      (use e r rs key ch pc in \<open>auto split: if_splits\<close>)
qed

lemma arrives_invariant:
  assumes "invariant s" "arrives s k p = Some s'"
  shows "invariant s'"
proof -
  note e = arrives_effect[OF assms(2)]
  from assms(1) have m: "chans_made s" and d: "chans_distinct s" and ro: "registry_owned s"
    and rto: "routers_owned s" and rr: "replies_routed s"
    by (auto simp: invariant_def)
  have own: "owned s' y q = owned s y q" for y q
    using e(2) by (simp add: owned_def)
  have "chans_made s'"
    using m e unfolding chans_made_def by auto
  moreover have "chans_distinct s'"
    using d e unfolding chans_distinct_def by auto
  moreover have "registry_owned s'"
    using ro own e(6) unfolding registry_owned_def by auto
  moreover have "routers_owned s'"
    using rto ro own e(8) unfolding routers_owned_def registry_owned_def by (auto split: if_splits)
  moreover have "replies_routed s'"
    using rr e(1,2,8) unfolding replies_routed_def by (auto split: if_splits) (metis option.distinct(1))+
  ultimately show ?thesis by (simp add: invariant_def)
qed

lemma step_invariant:
  assumes "invariant s" "step s e = Some s'"
  shows "invariant s'"
  using assms
  by (cases e)
    (auto intro: invoke_invariant prepare_invariant publishes_invariant resolve_invariant handoff_invariant
      arrives_invariant)

lemma exec_invariant:
  assumes "invariant s" "exec s evs = Some s'"
  shows "invariant s'"
  using assms
  by (induction evs arbitrary: s) (auto split: option.splits dest: step_invariant)

lemma NewHandler_registry:
  assumes "NewHandler connected subscribed inp = Inr (h, routed, topic)"
  shows "correlData h = Map.empty" "topic = responses_topic (ClientID h)" "routed = topic"
    "connected = Inr (ClientID h)" "requestTimeout h = RequestTimeout inp"
  using assms by (auto simp: NewHandler_def Let_def split: sum.splits option.splits)

lemma start_invariant: "correlData h = Map.empty \<Longrightarrow> invariant (start h st)"
  by (simp add: invariant_def inv_defs start_def)

lemma kept_transfer:
  assumes k: "kept s"
    and A: "\<And>j g. calls s' j = Some g \<Longrightarrow>
          \<exists>g0. calls s j = Some g0 \<and> call_cID g0 = call_cID g \<and> call_rChan g0 = call_rChan g"
    and B: "\<And>j g0. calls s j = Some g0 \<Longrightarrow> \<exists>g. calls s' j = Some g \<and> call_cID g = call_cID g0"
    and C: "\<And>k r. routers s k = Some r \<Longrightarrow> \<exists>r'. routers s' k = Some r' \<and> rh_key r' = rh_key r"
    and D: "\<And>j g. calls s j = Some g \<Longrightarrow>
          correlData (handler s) (call_cID g) = Some (call_rChan g) \<Longrightarrow>
          correlData (handler s') (call_cID g) = Some (call_rChan g) \<or>
          (\<exists>k r'. routers s' k = Some r' \<and> rh_key r' = call_cID g)"
  shows "kept s'"
  unfolding kept_def
proof (intro allI impI)
  fix j g assume g: "calls s' j = Some g"
  from A[OF g] obtain g0 where g0: "calls s j = Some g0" "call_cID g0 = call_cID g"
    "call_rChan g0 = call_rChan g" by blast
  from k g0(1) consider
      (entry) "correlData (handler s) (call_cID g0) = Some (call_rChan g0)"
    | (taken) k r where "routers s k = Some r" "rh_key r = call_cID g0"
    | (shared) j' g' where "j' \<noteq> j" "calls s j' = Some g'" "call_cID g' = call_cID g0"
    unfolding kept_def by blast
  then show "correlData (handler s') (call_cID g) = Some (call_rChan g) \<or>
        (\<exists>k r. routers s' k = Some r \<and> rh_key r = call_cID g) \<or>
        (\<exists>j' g'. j' \<noteq> j \<and> calls s' j' = Some g' \<and> call_cID g' = call_cID g)"
  proof cases
    case entry
    from D[OF g0(1) entry] show ?thesis using g0 by auto
  next
    case taken
    from C[OF taken(1)] taken(2) g0 show ?thesis by auto
  next
    case shared
    from B[OF shared(2)] shared(1,3) g0 show ?thesis by auto
  qed
qed

lemma step_kept:
  assumes inv: "invariant s" and k: "kept s" and st: "step s e = Some s'"
  shows "kept s'"
proof (cases e)
  case (Invoke i p c)
  with st have "invoke s i p c = Some s'" by simp
  note e = invoke_effect[OF this]
  show ?thesis
    unfolding kept_def
  proof (intro allI impI)
    fix j g assume g: "calls s' j = Some g"
    show "correlData (handler s') (call_cID g) = Some (call_rChan g) \<or>
        (\<exists>k r. routers s' k = Some r \<and> rh_key r = call_cID g) \<or>
        (\<exists>j' g'. j' \<noteq> j \<and> calls s' j' = Some g' \<and> call_cID g' = call_cID g)"
    proof (cases "j = i")
      case True
      with g e(3,4) show ?thesis by auto
    next
      case False
      with g e(3) have g0: "calls s j = Some g" by simp
      show ?thesis
      proof (cases "call_cID g = c")
        case True
        have "calls s' i = Some \<lparr>call_pb = p, call_cID = c, call_rChan = Chan (nextChan s),
          call_pc = AtCheck\<rparr>"
          using e(3) by simp
        with False True show ?thesis by force
      next
        case ne: False
        from k g0 consider
            (entry) "correlData (handler s) (call_cID g) = Some (call_rChan g)"
          | (taken) k r where "routers s k = Some r" "rh_key r = call_cID g"
          | (shared) j' g' where "j' \<noteq> j" "calls s j' = Some g'" "call_cID g' = call_cID g"
          unfolding kept_def by blast
        then show ?thesis
        proof cases
          case entry
          with ne e(4) show ?thesis by simp
        next
          case taken
          with e(6) show ?thesis by auto
        next
          case shared
          from shared(2) e(1) have "j' \<noteq> i" by auto
          with shared e(3) have "calls s' j' = Some g'" by simp
          with shared show ?thesis by blast
        qed
      qed
    qed
  qed
next
  case (Prepare i a)
  with st have "prepare s i a = Some s'" by simp
  note e = prepare_effect[OF this]
  from e(1) obtain f pc where f: "calls s i = Some f"
    and c: "calls s' = (calls s)(i \<mapsto> f\<lparr>call_pc := pc\<rparr>)"
    by blast
  show ?thesis
    by (rule kept_transfer[OF k]) (use f c e(2,3) in \<open>auto split: if_splits\<close>)
next
  case (Publishes i err)
  with st have "publishes_step s i err = Some s'" by simp
  note e = publishes_effect[OF this]
  from e(1) obtain f where f: "calls s i = Some f"
    and c: "calls s' = (calls s)(i \<mapsto> f\<lparr>call_pc := (case err of Some e \<Rightarrow> Returned (Inl e)
                                                        | None \<Rightarrow> AtSelect)\<rparr>)"
    by blast
  show ?thesis
    by (rule kept_transfer[OF k]) (use f c e(2,3) in \<open>auto split: if_splits\<close>)
next
  case (TimerFires i)
  with st have "resolve s i TimerFired = Some s'" by simp
  note e = resolve_effect[OF this]
  from e(1) obtain f where f: "calls s i = Some f"
    and c: "calls s' = (calls s)(i \<mapsto> f\<lparr>call_pc := Returned (Request_select TimerFired)\<rparr>)"
    by blast
  show ?thesis
    by (rule kept_transfer[OF k]) (use f c e(2,3) in \<open>auto split: if_splits\<close>)
next
  case (CtxDone i cause)
  with st have "resolve s i (ContextDone cause) = Some s'" by simp
  note e = resolve_effect[OF this]
  from e(1) obtain f where f: "calls s i = Some f"
    and c: "calls s' = (calls s)(i \<mapsto> f\<lparr>call_pc := Returned (Request_select (ContextDone cause))\<rparr>)"
    by blast
  show ?thesis
    by (rule kept_transfer[OF k]) (use f c e(2,3) in \<open>auto split: if_splits\<close>)
next
  case (Arrives k' p)
  with st have "arrives s k' p = Some s'" by simp
  note e = arrives_effect[OF this]
  from inv have m: "chans_made s" by (simp add: invariant_def)
  show ?thesis
  proof (rule kept_transfer[OF k])
    fix j g assume g: "calls s j = Some g"
      and en: "correlData (handler s) (call_cID g) = Some (call_rChan g)"
    from m g obtain n where n: "call_rChan g = Chan n" unfolding chans_made_def by blast
    from e(8) show "correlData (handler s') (call_cID g) = Some (call_rChan g) \<or>
          (\<exists>k r'. routers s' k = Some r' \<and> rh_key r' = call_cID g)"
    proof
      assume "routers s' = routers s"
      from e(7)[OF this] en n show ?thesis by simp
    next
      assume "\<exists>cd r. read_correlation (heap s) p = Some (Some cd) \<and>
        correlData (handler s) cd = Some r \<and> r \<noteq> NilChan \<and>
        correlData (handler s') = (correlData (handler s))(cd := None) \<and>
        routers s' = (routers s)(k' \<mapsto> \<lparr>rh_pb = p, rh_key = cd, rh_rChan = r, rh_pc = AtSend\<rparr>)"
      then obtain cd r where h': "correlData (handler s') = (correlData (handler s))(cd := None)"
        and r': "routers s' = (routers s)(k' \<mapsto> \<lparr>rh_pb = p, rh_key = cd, rh_rChan = r, rh_pc = AtSend\<rparr>)"
        by blast
      show ?thesis
      proof (cases "cd = call_cID g")
        case True
        with r' show ?thesis by auto
      next
        case False
        with h' en show ?thesis by simp
      qed
    qed
  next
    fix k r assume r: "routers s k = Some r"
    with e(1) have "k \<noteq> k'" by auto
    with e(8) r show "\<exists>r'. routers s' k = Some r' \<and> rh_key r' = rh_key r" by auto
  qed (use e(2) in auto)
next
  case (Handoff k' i)
  with st have "handoff s k' i = Some s'" by simp
  note e = handoff_effect[OF this]
  from e(1) obtain r f where r: "routers s k' = Some r" and f: "calls s i = Some f"
    and c: "calls s' = (calls s)(i \<mapsto> f\<lparr>call_pc := Returned (Inr (rh_pb r))\<rparr>)"
    and rs: "routers s' = (routers s)(k' \<mapsto> r\<lparr>rh_pc := Sent\<rparr>)"
    by blast
  show ?thesis
    by (rule kept_transfer[OF k]) (use f c r rs e(2) in \<open>auto split: if_splits\<close>)
qed

lemma exec_kept:
  assumes "invariant s" "kept s" "exec s evs = Some s'"
  shows "kept s'"
  using assms
proof (induction evs arbitrary: s)
  case Nil
  then show ?case by simp
next
  case (Cons e evs)
  from Cons.prems(3) obtain s1 where s1: "step s e = Some s1" "exec s1 evs = Some s'"
    by (auto split: option.splits)
  from Cons.IH[OF step_invariant[OF Cons.prems(1) s1(1)] step_kept[OF Cons.prems(1,2) s1(1)] s1(2)]
  show ?case .
qed

lemma start_kept: "kept (start h st)"
  by (simp add: kept_def start_def)

section \<open>Facts about runs\<close>

lemma step_heap:
  assumes "step s e = Some s'" "\<And>j a. e \<noteq> Prepare j a"
  shows "heap s' = heap s"
  using assms
  by (cases e)
    (auto dest: invoke_effect(7) publishes_effect(5) resolve_effect(5) arrives_effect(3)
      handoff_effect(4))

lemma exec_heap:
  assumes "exec s es = Some s'" "\<And>j a. Prepare j a \<notin> set es"
  shows "heap s' = heap s"
  using assms
proof (induction es arbitrary: s)
  case Nil
  then show ?case by simp
next
  case (Cons e es)
  from Cons.prems(1) obtain s1 where s1: "step s e = Some s1" "exec s1 es = Some s'"
    by (auto split: option.splits)
  from Cons.prems(2) have "\<And>j a. e \<noteq> Prepare j a" by auto
  from step_heap[OF s1(1) this] Cons.IH[OF s1(2)] Cons.prems(2) show ?case by simp
qed



lemmas run_defs = start_def handler0_def store0_def writes_new_def writes_given_def invoke_def
  prepare_def publishes_step_def resolve_def
  arrives_def handoff_def addCorrelID_def getCorrelIDChan_def responseHandler_def
  read_correlation_def Request_advance_def Request_select_def zero_PublishProperties_def
  responses_topic_def envelope_def Let_def

lemma step_frame_origin:
  assumes "step s e = Some s'" "calls s' i = Some f"
  shows "(\<exists>f0. calls s i = Some f0 \<and> call_pb f0 = call_pb f \<and> call_cID f0 = call_cID f \<and>
            call_rChan f0 = call_rChan f) \<or>
         e = Invoke i (call_pb f) (call_cID f)"
proof (cases e)
  case (Invoke j p c)
  with assms(1) have "invoke s j p c = Some s'" by simp
  from invoke_effect(3)[OF this] assms(2) Invoke show ?thesis
    by (auto split: if_splits)
next
  case (Prepare j a)
  with assms(1) have "prepare s j a = Some s'" by simp
  from prepare_effect(1)[OF this] assms(2) show ?thesis
    by (auto split: if_splits)
next
  case (Publishes j err)
  with assms(1) have "publishes_step s j err = Some s'" by simp
  from publishes_effect(1)[OF this] assms(2) show ?thesis
    by (auto split: if_splits)
next
  case (TimerFires j)
  with assms(1) have "resolve s j TimerFired = Some s'" by simp
  from resolve_effect(1)[OF this] assms(2) show ?thesis
    by (auto split: if_splits)
next
  case (CtxDone j c)
  with assms(1) have "resolve s j (ContextDone c) = Some s'" by simp
  from resolve_effect(1)[OF this] assms(2) show ?thesis
    by (auto split: if_splits)
next
  case (Arrives k p)
  with assms(1) have "arrives s k p = Some s'" by simp
  from arrives_effect(2)[OF this] assms(2) show ?thesis
    by auto
next
  case (Handoff k j)
  with assms(1) have "handoff s k j = Some s'" by simp
  from handoff_effect(1)[OF this] assms(2) show ?thesis
    by (auto split: if_splits)
qed

lemma exec_frame_origin:
  assumes "exec s evs = Some s'" "calls s' i = Some f"
  shows "(\<exists>f0. calls s i = Some f0 \<and> call_pb f0 = call_pb f \<and> call_cID f0 = call_cID f \<and>
            call_rChan f0 = call_rChan f) \<or>
         Invoke i (call_pb f) (call_cID f) \<in> set evs"
  using assms
proof (induction evs arbitrary: s)
  case Nil
  then show ?case by auto
next
  case (Cons e evs)
  from Cons.prems(1) obtain s1 where s1: "step s e = Some s1" "exec s1 evs = Some s'"
    by (auto split: option.splits)
  from Cons.IH[OF s1(2) Cons.prems(2)] show ?case
  proof
    assume "\<exists>f0. calls s1 i = Some f0 \<and> call_pb f0 = call_pb f \<and> call_cID f0 = call_cID f \<and>
            call_rChan f0 = call_rChan f"
    then obtain f1 where f1: "calls s1 i = Some f1" "call_pb f1 = call_pb f"
      "call_cID f1 = call_cID f" "call_rChan f1 = call_rChan f" by blast
    from step_frame_origin[OF s1(1) f1(1)] f1(2,3,4) show ?thesis by auto
  next
    assume "Invoke i (call_pb f) (call_cID f) \<in> set evs"
    then show ?thesis by simp
  qed
qed

lemma reachable_invariant:
  assumes "NewHandler connected subscribed inp = Inr (h, routed, topic)"
    and "exec (start h st) evs = Some s"
  shows "invariant s" "kept s"
proof -
  from NewHandler_registry(1)[OF assms(1)] have i0: "invariant (start h st)"
    by (rule start_invariant)
  from exec_invariant[OF i0 assms(2)] show "invariant s" .
  from exec_kept[OF i0 start_kept assms(2)] show "kept s" .
qed

lemma kept_entry:
  assumes "kept s" "calls s i = Some f"
    and "\<forall>k r. routers s k = Some r \<longrightarrow> rh_key r \<noteq> call_cID f"
    and "\<forall>j g. calls s j = Some g \<and> call_cID g = call_cID f \<longrightarrow> j = i"
  shows "correlData (handler s) (call_cID f) = Some (call_rChan f)"
  using assms unfolding kept_def by blast

lemma NewHandler0:
  "NewHandler (Inr ''client-7'') None input0 =
     Inr (handler0, ''client-7/responses'', ''client-7/responses'')"
  by (simp add: NewHandler_def input0_def handler0_def responses_topic_def)

lemma step_returned:
  assumes "step s e = Some s'" "calls s i = Some f" "call_pc f = Returned res"
  shows "calls s' i = Some f"
proof (cases e)
  case (Invoke j p c)
  with assms(1) have "invoke s j p c = Some s'" by simp
  from invoke_effect(1,3)[OF this] assms(2) show ?thesis by auto
next
  case (Prepare j a)
  with assms(1) have "prepare s j a = Some s'" by simp
  from prepare_effect(1)[OF this] assms(2,3) show ?thesis by auto
next
  case (Publishes j err)
  with assms(1) have "publishes_step s j err = Some s'" by simp
  from publishes_effect(1)[OF this] assms(2,3) show ?thesis by auto
next
  case (TimerFires j)
  with assms(1) have "resolve s j TimerFired = Some s'" by simp
  from resolve_effect(1)[OF this] assms(2,3) show ?thesis by auto
next
  case (CtxDone j c)
  with assms(1) have "resolve s j (ContextDone c) = Some s'" by simp
  from resolve_effect(1)[OF this] assms(2,3) show ?thesis by auto
next
  case (Arrives k p)
  with assms(1) have "arrives s k p = Some s'" by simp
  from arrives_effect(2)[OF this] assms(2) show ?thesis by simp
next
  case (Handoff k j)
  with assms(1) have "handoff s k j = Some s'" by simp
  from handoff_effect(1)[OF this] assms(2,3) show ?thesis by auto
qed



lemma returned_owner_blocks:
  assumes inv: "invariant s" and r: "routers s k = Some r" "rh_pc r = AtSend"
    and f: "calls s i = Some f" "call_rChan f = rh_rChan r" "call_pc f = Returned res"
    and ex: "exec s es = Some s'"
  shows "routers s' k = Some r"
  using inv r(1) f(1) ex
proof (induction es arbitrary: s)
  case Nil
  then show ?case by simp
next
  case (Cons e es)
  from Cons.prems(4) obtain s1 where s1: "step s e = Some s1" "exec s1 es = Some s'"
    by (auto split: option.splits)
  have i1: "invariant s1"
    using step_invariant[OF Cons.prems(1) s1(1)] .
  have f1: "calls s1 i = Some f"
    using step_returned[OF s1(1) Cons.prems(3) f(3)] .
  have r1: "routers s1 k = Some r"
  proof (cases e)
    case (Invoke j p c)
    with s1(1) have "invoke s j p c = Some s1" by simp
    from invoke_effect(6)[OF this] Cons.prems(2) show ?thesis by simp
  next
    case (Prepare j a)
    with s1(1) have "prepare s j a = Some s1" by simp
    from prepare_effect(3)[OF this] Cons.prems(2) show ?thesis by simp
  next
    case (Publishes j err)
    with s1(1) have "publishes_step s j err = Some s1" by simp
    from publishes_effect(3)[OF this] Cons.prems(2) show ?thesis by simp
  next
    case (TimerFires j)
    with s1(1) have "resolve s j TimerFired = Some s1" by simp
    from resolve_effect(3)[OF this] Cons.prems(2) show ?thesis by simp
  next
    case (CtxDone j c)
    with s1(1) have "resolve s j (ContextDone c) = Some s1" by simp
    from resolve_effect(3)[OF this] Cons.prems(2) show ?thesis by simp
  next
    case (Arrives k' p)
    with s1(1) have "arrives s k' p = Some s1" by simp
    from arrives_effect(1,8)[OF this] Cons.prems(2) show ?thesis by auto
  next
    case (Handoff k' j)
    with s1(1) have "handoff s k' j = Some s1" by simp
    from handoff_effect(1)[OF this] obtain r' g where h: "routers s k' = Some r'"
      "calls s j = Some g" "call_pc g = AtSelect" "rh_rChan r' = call_rChan g"
      "routers s1 = (routers s)(k' \<mapsto> r'\<lparr>rh_pc := Sent\<rparr>)"
      by blast
    show ?thesis
    proof (cases "k' = k")
      case True
      with h(1) Cons.prems(2) have "r' = r" by simp
      with h(4) f(2) have "call_rChan g = call_rChan f" by simp
      with Cons.prems(1,3) h(2) have "j = i"
        unfolding invariant_def chans_distinct_def by blast
      with h(2,3) Cons.prems(3) f(3) show ?thesis by simp
    next
      case False
      with h(5) Cons.prems(2) show ?thesis by simp
    qed
  qed
  from Cons.IH[OF i1 r1 f1 s1(2)] show ?case .
qed

lemma returned_owner_blocked_forever:
  assumes "invariant s" "routers s k = Some r" "rh_pc r = AtSend"
    and "calls s i = Some f" "call_rChan f = rh_rChan r" "call_pc f = Returned res"
  shows "blocked_forever s k"
  unfolding blocked_forever_def
  using assms returned_owner_blocks[OF assms] by auto

lemma step_send_completes:
  assumes "step s e = Some s'" "routers s k = Some r" "routers s' k \<noteq> Some r"
  shows "\<exists>j g. e = Handoff k j \<and> calls s j = Some g \<and> call_pc g = AtSelect \<and>
           call_rChan g = rh_rChan r \<and> rh_pc r = AtSend \<and>
           calls s' j = Some (g\<lparr>call_pc := Returned (Inr (rh_pb r))\<rparr>)"
proof (cases e)
  case (Invoke j p c)
  with assms(1) have "invoke s j p c = Some s'" by simp
  from invoke_effect(6)[OF this] assms(2,3) show ?thesis by simp
next
  case (Prepare j a)
  with assms(1) have "prepare s j a = Some s'" by simp
  from prepare_effect(3)[OF this] assms(2,3) show ?thesis by simp
next
  case (Publishes j err)
  with assms(1) have "publishes_step s j err = Some s'" by simp
  from publishes_effect(3)[OF this] assms(2,3) show ?thesis by simp
next
  case (TimerFires j)
  with assms(1) have "resolve s j TimerFired = Some s'" by simp
  from resolve_effect(3)[OF this] assms(2,3) show ?thesis by simp
next
  case (CtxDone j c)
  with assms(1) have "resolve s j (ContextDone c) = Some s'" by simp
  from resolve_effect(3)[OF this] assms(2,3) show ?thesis by simp
next
  case (Arrives k' p)
  with assms(1) have "arrives s k' p = Some s'" by simp
  from arrives_effect(1,8)[OF this] assms(2,3) show ?thesis by (auto split: if_splits)
next
  case (Handoff k' j)
  with assms(1) have "handoff s k' j = Some s'" by simp
  from handoff_effect(1)[OF this] assms(2,3) Handoff show ?thesis
    by (auto split: if_splits)
qed

lemma arrived_append:
  assumes "arrived s0 evs p c"
  shows "arrived s0 (evs @ es) p c"
proof -
  from assms obtain evs1 k evs2 s1 where "evs = evs1 @ Arrives k p # evs2"
    "exec s0 evs1 = Some s1" "read_correlation (heap s1) p = Some (Some c)"
    unfolding arrived_def by blast
  then have "evs @ es = evs1 @ Arrives k p # (evs2 @ es) \<and> exec s0 evs1 = Some s1 \<and>
      read_correlation (heap s1) p = Some (Some c)"
    by simp
  then show ?thesis
    unfolding arrived_def by blast
qed

lemma step_router_origin:
  assumes "step s e = Some s'" "routers s' k = Some r"
  shows "(\<exists>r0. routers s k = Some r0 \<and> rh_pb r0 = rh_pb r \<and> rh_key r0 = rh_key r) \<or>
         (e = Arrives k (rh_pb r) \<and> read_correlation (heap s) (rh_pb r) = Some (Some (rh_key r)))"
proof (cases e)
  case (Invoke j p c)
  with assms(1) have "invoke s j p c = Some s'" by simp
  from invoke_effect(6)[OF this] assms(2) show ?thesis by simp
next
  case (Prepare j a)
  with assms(1) have "prepare s j a = Some s'" by simp
  from prepare_effect(3)[OF this] assms(2) show ?thesis by simp
next
  case (Publishes j err)
  with assms(1) have "publishes_step s j err = Some s'" by simp
  from publishes_effect(3)[OF this] assms(2) show ?thesis by simp
next
  case (TimerFires j)
  with assms(1) have "resolve s j TimerFired = Some s'" by simp
  from resolve_effect(3)[OF this] assms(2) show ?thesis by simp
next
  case (CtxDone j c)
  with assms(1) have "resolve s j (ContextDone c) = Some s'" by simp
  from resolve_effect(3)[OF this] assms(2) show ?thesis by simp
next
  case (Arrives k' p)
  with assms(1) have "arrives s k' p = Some s'" by simp
  from arrives_effect(8)[OF this] assms(2) Arrives show ?thesis
    by (auto split: if_splits)
next
  case (Handoff k' j)
  with assms(1) have "handoff s k' j = Some s'" by simp
  from handoff_effect(1)[OF this] assms(2) show ?thesis
    by (auto split: if_splits)
qed

lemma exec_snoc:
  "exec s (es @ [e]) = (case exec s es of None \<Rightarrow> None | Some s' \<Rightarrow> step s' e)"
  by (simp add: exec_append split: option.splits)

lemma router_arrived:
  assumes "exec s0 evs = Some s" "routers s k = Some r" "routers s0 = Map.empty"
  shows "arrived s0 evs (rh_pb r) (rh_key r)"
  using assms(1,2)
proof (induction evs arbitrary: s r rule: rev_induct)
  case Nil
  with assms(3) show ?case by simp
next
  case (snoc e evs)
  from snoc.prems(1) obtain s1 where s1: "exec s0 evs = Some s1" "step s1 e = Some s"
    by (auto simp: exec_snoc split: option.splits)
  from step_router_origin[OF s1(2) snoc.prems(2)] show ?case
  proof
    assume "\<exists>r0. routers s1 k = Some r0 \<and> rh_pb r0 = rh_pb r \<and> rh_key r0 = rh_key r"
    then obtain r0 where "routers s1 k = Some r0" "rh_pb r0 = rh_pb r" "rh_key r0 = rh_key r"
      by blast
    with snoc.IH[OF s1(1)] have "arrived s0 evs (rh_pb r) (rh_key r)" by metis
    then show ?thesis by (rule arrived_append)
  next
    assume "e = Arrives k (rh_pb r) \<and>
      read_correlation (heap s1) (rh_pb r) = Some (Some (rh_key r))"
    with s1(1) have "evs @ [e] = evs @ Arrives k (rh_pb r) # [] \<and> exec s0 evs = Some s1 \<and>
      read_correlation (heap s1) (rh_pb r) = Some (Some (rh_key r))"
      by simp
    then show ?thesis unfolding arrived_def by blast
  qed
qed

section \<open>Calls that write to a message alone\<close>

lemma Request_advance_cases:
  assumes "Request_advance h st fresh p c pc = Some (st', pc')"
  obtains
    (check) m where "publishes st p = Some m" "pc = AtCheck" "st' = st"
      "pc' = (if Properties m = None then AtAlloc else AtCorrelLoad)"
  | (alloc) m where "publishes st p = Some m" "pc = AtAlloc" "props st fresh = None"
      "st' = st\<lparr>publishes := (publishes st)(p \<mapsto> m\<lparr>Properties := Some fresh\<rparr>),
                 props := (props st)(fresh \<mapsto> zero_PublishProperties)\<rparr>"
      "pc' = AtCorrelLoad"
  | (cload) m where "publishes st p = Some m" "pc = AtCorrelLoad" "st' = st"
      "pc' = (case Properties m of None \<Rightarrow> Panicked | Some q \<Rightarrow> AtCorrelStore q)"
  | (cstore) m q pr where "publishes st p = Some m" "pc = AtCorrelStore q" "props st q = Some pr"
      "st' = st\<lparr>props := (props st)(q \<mapsto> pr\<lparr>CorrelationData := Some c\<rparr>)\<rparr>"
      "pc' = AtTopicLoad"
  | (tload) m where "publishes st p = Some m" "pc = AtTopicLoad" "st' = st"
      "pc' = (case Properties m of None \<Rightarrow> Panicked | Some q \<Rightarrow> AtTopicStore q)"
  | (tstore) m q pr where "publishes st p = Some m" "pc = AtTopicStore q" "props st q = Some pr"
      "st' = st\<lparr>props := (props st)(q \<mapsto> pr\<lparr>ResponseTopic := responses_topic (ClientID h)\<rparr>)\<rparr>"
      "pc' = AtRetain"
  | (retain) m where "publishes st p = Some m" "pc = AtRetain"
      "st' = st\<lparr>publishes := (publishes st)(p \<mapsto> m\<lparr>Retain := False\<rparr>)\<rparr>"
      "pc' = AtPublish"
  using assms
  by (auto simp: Request_advance_def split: option.splits call_pc.splits if_splits)
















lemmas progress_defs = progress_def points_to_def correl_written_def topic_written_def
  retain_written_def


lemma progress_pc:
  assumes "progress s f" "call_pc f = AtPublish \<or> call_pc f = AtSelect \<or> call_pc f = Returned r"
    and "pc = AtSelect \<or> pc = Returned r'"
  shows "progress s (f\<lparr>call_pc := pc\<rparr>)"
  using assms by (auto simp: progress_defs)






lemma step_frames:
  assumes "step s e = Some s'" "\<And>j a. e \<noteq> Prepare j a" "calls s' j = Some g'"
  shows "(\<exists>g. calls s j = Some g \<and> call_pb g' = call_pb g \<and> call_cID g' = call_cID g \<and>
           (call_pc g' = call_pc g \<or>
            ((call_pc g = AtPublish \<or> call_pc g = AtSelect) \<and>
             (call_pc g' = AtSelect \<or> (\<exists>r. call_pc g' = Returned r))))) \<or>
        (calls s j = None \<and> call_pc g' = AtCheck)"
proof (cases e)
  case (Invoke i p c)
  with assms(1) have "invoke s i p c = Some s'" by simp
  from invoke_effect(1,3)[OF this] assms(3) show ?thesis
    by (auto split: if_splits)
next
  case (Prepare i a)
  with assms(2)[of i a] show ?thesis by simp
next
  case (Publishes i err)
  with assms(1) have "publishes_step s i err = Some s'" by simp
  from publishes_effect(1)[OF this] assms(3) show ?thesis
    by (auto split: if_splits option.splits)
next
  case (TimerFires i)
  with assms(1) have "resolve s i TimerFired = Some s'" by simp
  from resolve_effect(1)[OF this] assms(3) show ?thesis
    by (auto split: if_splits)
next
  case (CtxDone i c)
  with assms(1) have "resolve s i (ContextDone c) = Some s'" by simp
  from resolve_effect(1)[OF this] assms(3) show ?thesis
    by (auto split: if_splits)
next
  case (Arrives k p)
  with assms(1) have "arrives s k p = Some s'" by simp
  from arrives_effect(2)[OF this] assms(3) show ?thesis
    by auto
next
  case (Handoff k i)
  with assms(1) have "handoff s k i = Some s'" by simp
  from handoff_effect(1)[OF this] assms(3) show ?thesis
    by (auto split: if_splits)
qed



















section \<open>No nil dereference\<close>

lemma Request_advance_nonnil:
  assumes "Request_advance h st fresh pj c pc = Some (st', pc')"
    "publishes st p = Some m" "Properties m = Some q"
  shows "\<exists>m' q'. publishes st' p = Some m' \<and> Properties m' = Some q'"
  using assms(1)
  by (cases rule: Request_advance_cases) (use assms(2,3) in \<open>auto split: if_splits\<close>)

lemma Request_advance_loaded:
  assumes "Request_advance h st fresh p c pc = Some (st', pc')"
    and "pc = AtCorrelLoad \<or> (\<exists>q. pc = AtCorrelStore q) \<or> pc = AtTopicLoad
           \<longrightarrow> (\<exists>m q. publishes st p = Some m \<and> Properties m = Some q)"
  shows "pc' \<noteq> Panicked \<and>
     (pc' = AtCorrelLoad \<or> (\<exists>q. pc' = AtCorrelStore q) \<or> pc' = AtTopicLoad
           \<longrightarrow> (\<exists>m q. publishes st' p = Some m \<and> Properties m = Some q))"
  using assms(1)
  by (cases rule: Request_advance_cases) (use assms(2) in \<open>auto split: if_splits\<close>)

lemma step_loaded:
  assumes "loaded s" "step s e = Some s'"
  shows "loaded s'"
proof (cases "\<exists>j a. e = Prepare j a")
  case True
  then obtain j a where e: "e = Prepare j a" by blast
  with assms(2) have "prepare s j a = Some s'" by simp
  from prepare_effect(1)[OF this] obtain f pc where f: "calls s j = Some f"
    and adv: "Request_advance (handler s) (heap s) a (call_pb f) (call_cID f) (call_pc f)
             = Some (heap s', pc)"
    and c: "calls s' = (calls s)(j \<mapsto> f\<lparr>call_pc := pc\<rparr>)"
    by blast
  show ?thesis
    unfolding loaded_def
  proof (intro allI impI)
    fix i g assume g: "calls s' i = Some g"
    show "call_pc g \<noteq> Panicked \<and>
        (call_pc g = AtCorrelLoad \<or> (\<exists>q. call_pc g = AtCorrelStore q) \<or> call_pc g = AtTopicLoad
           \<longrightarrow> (\<exists>m q. publishes (heap s') (call_pb g) = Some m \<and> Properties m = Some q))"
    proof (cases "i = j")
      case True
      with g c have gg: "g = f\<lparr>call_pc := pc\<rparr>" by simp
      from assms(1) f have "call_pc f = AtCorrelLoad \<or> (\<exists>q. call_pc f = AtCorrelStore q) \<or>
          call_pc f = AtTopicLoad
           \<longrightarrow> (\<exists>m q. publishes (heap s) (call_pb f) = Some m \<and> Properties m = Some q)"
        unfolding loaded_def by blast
      from Request_advance_loaded[OF adv this] gg show ?thesis by simp
    next
      case False
      with g c have g0: "calls s i = Some g" by simp
      with assms(1) have a: "call_pc g \<noteq> Panicked"
        and b: "call_pc g = AtCorrelLoad \<or> (\<exists>q. call_pc g = AtCorrelStore q) \<or>
          call_pc g = AtTopicLoad
           \<longrightarrow> (\<exists>m q. publishes (heap s) (call_pb g) = Some m \<and> Properties m = Some q)"
        unfolding loaded_def by blast+
      from b Request_advance_nonnil[OF adv] a show ?thesis by blast
    qed
  qed
next
  case False
  then have ne: "\<And>j a. e \<noteq> Prepare j a" by blast
  note hp = step_heap[OF assms(2) ne]
  show ?thesis
    unfolding loaded_def
  proof (intro allI impI)
    fix i g assume g: "calls s' i = Some g"
    from step_frames[OF assms(2) ne g]
    show "call_pc g \<noteq> Panicked \<and>
        (call_pc g = AtCorrelLoad \<or> (\<exists>q. call_pc g = AtCorrelStore q) \<or> call_pc g = AtTopicLoad
           \<longrightarrow> (\<exists>m q. publishes (heap s') (call_pb g) = Some m \<and> Properties m = Some q))"
    proof
      assume "\<exists>g0. calls s i = Some g0 \<and> call_pb g = call_pb g0 \<and> call_cID g = call_cID g0 \<and>
           (call_pc g = call_pc g0 \<or>
            ((call_pc g0 = AtPublish \<or> call_pc g0 = AtSelect) \<and>
             (call_pc g = AtSelect \<or> (\<exists>r. call_pc g = Returned r))))"
      then obtain g0 where g0: "calls s i = Some g0" "call_pb g = call_pb g0"
        "call_pc g = call_pc g0 \<or>
            ((call_pc g0 = AtPublish \<or> call_pc g0 = AtSelect) \<and>
             (call_pc g = AtSelect \<or> (\<exists>r. call_pc g = Returned r)))"
        by blast
      from assms(1) g0(1) have "call_pc g0 \<noteq> Panicked"
        and "call_pc g0 = AtCorrelLoad \<or> (\<exists>q. call_pc g0 = AtCorrelStore q) \<or>
          call_pc g0 = AtTopicLoad
           \<longrightarrow> (\<exists>m q. publishes (heap s) (call_pb g0) = Some m \<and> Properties m = Some q)"
        unfolding loaded_def by blast+
      with g0(2,3) hp show ?thesis by (auto; metis)
    next
      assume "calls s i = None \<and> call_pc g = AtCheck"
      then show ?thesis by simp
    qed
  qed
qed

lemma never_panics:
  assumes "exec (start h st) evs = Some s" "calls s i = Some f"
  shows "call_pc f \<noteq> Panicked"
proof -
  have "loaded s'" if "loaded s0" "exec s0 es = Some s'" for s0 es s'
    using that
    by (induction es arbitrary: s0) (auto split: option.splits dest: step_loaded)
  moreover have "loaded (start h st)"
    by (simp add: loaded_def start_def)
  ultimately have "loaded s" using assms(1) by blast
  with assms(2) show ?thesis unfolding loaded_def by blast
qed

section \<open>The registry operations\<close>

text \<open>
  C6. \<open>getCorrelIDChan\<close> (the registry's take-and-remove) returns the channel registered
  under the identifier and removes the entry in the same atomic operation; for an absent
  identifier it returns the nil channel; the entries of all other identifiers and the rest
  of the handler stay as they were; and a second call for the same identifier, with no
  registration in between, returns the nil channel.
\<close>

theorem getCorrelIDChan_takes_and_removes:
  "(correlData h cID = None \<longrightarrow> fst (getCorrelIDChan h cID) = NilChan) \<and>
   (\<forall>r. correlData h cID = Some r \<longrightarrow> fst (getCorrelIDChan h cID) = r) \<and>
   correlData (snd (getCorrelIDChan h cID)) = (correlData h)(cID := None) \<and>
   (\<forall>c. c \<noteq> cID \<longrightarrow> correlData (snd (getCorrelIDChan h cID)) c = correlData h c) \<and>
   ClientID (snd (getCorrelIDChan h cID)) = ClientID h \<and>
   requestTimeout (snd (getCorrelIDChan h cID)) = requestTimeout h \<and>
   fst (getCorrelIDChan (snd (getCorrelIDChan h cID)) cID) = NilChan"
  by (simp add: getCorrelIDChan_def Let_def)

theorem getCorrelIDChan_takes_and_removes_witness:
  "correlData (addCorrelID handler0 ''id-1'' (Chan 0)) ''id-1'' = Some (Chan 0) \<and>
   fst (getCorrelIDChan (addCorrelID handler0 ''id-1'' (Chan 0)) ''id-1'') = Chan 0 \<and>
   fst (getCorrelIDChan (snd (getCorrelIDChan (addCorrelID handler0 ''id-1'' (Chan 0)) ''id-1''))
     ''id-1'') = NilChan \<and>
   correlData (addCorrelID handler0 ''id-1'' (Chan 0)) ''id-2'' = None \<and>
   fst (getCorrelIDChan (addCorrelID handler0 ''id-1'' (Chan 0)) ''id-2'') = NilChan \<and>
   correlData (snd (getCorrelIDChan (addCorrelID handler0 ''id-1'' (Chan 0)) ''id-2'')) ''id-1''
     = Some (Chan 0)"
proof -
  let ?h = "addCorrelID handler0 ''id-1'' (Chan 0)"
  have present: "correlData ?h ''id-1'' = Some (Chan 0)"
    and absent: "correlData ?h ''id-2'' = None"
    by (simp_all add: addCorrelID_def handler0_def)
  from getCorrelIDChan_takes_and_removes[of ?h "''id-1''"]
    getCorrelIDChan_takes_and_removes[of ?h "''id-2''"] present absent
  show ?thesis by simp
qed

text \<open>
  C10. After \<open>addCorrelID h cID r\<close> the registry maps \<open>cID\<close> to \<open>r\<close> and every other
  identifier as before, and the rest of the handler is unchanged. A slot registered
  earlier under \<open>cID\<close> is replaced without any error: the result is the same as if it had
  never been registered, and a later lookup of \<open>cID\<close> finds \<open>r\<close>, not the earlier slot.
\<close>

theorem addCorrelID_overwrites:
  "correlData (addCorrelID h cID r) cID = Some r \<and>
   (\<forall>c. c \<noteq> cID \<longrightarrow> correlData (addCorrelID h cID r) c = correlData h c) \<and>
   ClientID (addCorrelID h cID r) = ClientID h \<and>
   requestTimeout (addCorrelID h cID r) = requestTimeout h \<and>
   addCorrelID (addCorrelID h cID r0) cID r = addCorrelID h cID r \<and>
   fst (getCorrelIDChan (addCorrelID (addCorrelID h cID r0) cID r) cID) = r"
  by (simp add: addCorrelID_def getCorrelIDChan_def Let_def)

theorem addCorrelID_overwrites_witness:
  "correlData (addCorrelID (addCorrelID handler0 ''id-1'' (Chan 0)) ''id-2'' (Chan 1)) ''id-2''
     = Some (Chan 1) \<and>
   ''id-1'' \<noteq> ''id-2'' \<and>
   correlData (addCorrelID (addCorrelID handler0 ''id-1'' (Chan 0)) ''id-2'' (Chan 1)) ''id-1''
     = Some (Chan 0) \<and>
   fst (getCorrelIDChan (addCorrelID (addCorrelID handler0 ''id-1'' (Chan 0)) ''id-1'' (Chan 1))
     ''id-1'') = Chan 1"
proof -
  let ?h = "addCorrelID handler0 ''id-1'' (Chan 0)"
  have old: "correlData ?h ''id-1'' = Some (Chan 0)"
    by (simp add: addCorrelID_def)
  have ne: "''id-1'' \<noteq> ''id-2''"
    by simp
  note new = addCorrelID_overwrites[of ?h "''id-2''" "Chan 1"]
  note twice = addCorrelID_overwrites[of handler0 "''id-1''" "Chan 1" "Chan 0"]
  from new have "correlData (addCorrelID ?h ''id-2'' (Chan 1)) ''id-2'' = Some (Chan 1)"
    by blast
  moreover from new ne old
  have "correlData (addCorrelID ?h ''id-2'' (Chan 1)) ''id-1'' = Some (Chan 0)"
    by metis
  moreover from twice
  have "fst (getCorrelIDChan (addCorrelID ?h ''id-1'' (Chan 1)) ''id-1'') = Chan 1"
    by blast
  ultimately show ?thesis using ne by blast
qed

section \<open>The router's drop cases\<close>

text \<open>
  C7. When \<open>responseHandler\<close> is called with a message that has no properties or no
  correlation data, or whose correlation data are not a key of the registry, it returns
  before its send and leaves the handler as it was: the whole system state after the call
  is the state before it (no call of \<open>Request\<close> receives anything, no error value exists
  in the function's result, nothing is left blocked).
\<close>

theorem responseHandler_drops:
  assumes "read_correlation (heap s) p = Some None \<or>
     (\<exists>cd. read_correlation (heap s) p = Some (Some cd) \<and> correlData (handler s) cd = None)"
    and "routers s k = None"
  shows "responseHandler (handler s) (heap s) p = Some (handler s, Dropped) \<and>
         step s (Arrives k p) = Some s"
  using assms by (auto simp: responseHandler_def arrives_def getCorrelIDChan_absent)

theorem responseHandler_drops_witness:
  "read_correlation store0 3 = Some None \<and>
   read_correlation store0 1 = Some (Some ''id-1'') \<and>
   correlData handler0 ''id-1'' = None \<and>
   responseHandler handler0 store0 3 = Some (handler0, Dropped) \<and>
   responseHandler handler0 store0 1 = Some (handler0, Dropped) \<and>
   step (start handler0 store0) (Arrives 0 3) = Some (start handler0 store0) \<and>
   step (start handler0 store0) (Arrives 0 1) = Some (start handler0 store0)"
proof -
  have a: "read_correlation (heap (start handler0 store0)) 3 = Some None"
    and b: "read_correlation (heap (start handler0 store0)) 1 = Some (Some ''id-1'')"
    and c: "correlData (handler (start handler0 store0)) ''id-1'' = None"
    and d: "routers (start handler0 store0) 0 = None"
    by (simp_all add: start_def store0_def handler0_def read_correlation_def)
  from b c have e: "read_correlation (heap (start handler0 store0)) 1 = Some None \<or>
     (\<exists>cd. read_correlation (heap (start handler0 store0)) 1 = Some (Some cd) \<and>
        correlData (handler (start handler0 store0)) cd = None)"
    by simp
  have h: "handler (start handler0 store0) = handler0" "heap (start handler0 store0) = store0"
    by (simp_all add: start_def)
  from responseHandler_drops[of "start handler0 store0" 3 0] a d
    responseHandler_drops[OF e d] b c
  show ?thesis unfolding h by simp
qed

section \<open>The outgoing envelope\<close>




section \<open>The writes through the caller's pointer\<close>




section \<open>Registry entries of calls that return without a reply\<close>

text \<open>
  C2, as the code has it. \<open>Request\<close> never removes a registry entry; only
  \<open>responseHandler\<close> does. So in every run on a handler returned by \<open>NewHandler\<close>, a
  call that has returned \<open>ErrRequestTimeout\<close> still has its entry in the registry, mapping
  its identifier to its channel, at its return and ever after, as long as no message
  carrying that identifier has been routed to a slot (and no other call generated the same
  identifier). The claim as stated, that the entry is gone when the call returns, fails on
  the run of the counterexample.
\<close>

theorem timeout_leaves_entry:
  assumes "NewHandler connected subscribed inp = Inr (h, routed, topic)"
    and "exec (start h st) evs = Some s"
    and "calls s i = Some f" and "call_pc f = Returned (Inl ErrRequestTimeout)"
    and "\<forall>k r. routers s k = Some r \<longrightarrow> rh_key r \<noteq> call_cID f"
    and "\<forall>j g. calls s j = Some g \<and> call_cID g = call_cID f \<longrightarrow> j = i"
  shows "correlData (handler s) (call_cID f) = Some (call_rChan f)"
  using kept_entry[OF reachable_invariant(2)[OF assms(1,2)] assms(3,5,6)] .

theorem timeout_leaves_entry_witness:
  "\<exists>s f. exec (start handler0 store0)
       ([Invoke 0 0 ''id-1'', Invoke 1 2 ''id-2''] @ writes_new 0 7 @
        [Publishes 0 None, Arrives 0 3, TimerFires 0]) = Some s \<and>
     calls s 0 = Some f \<and> call_cID f = ''id-1'' \<and> call_rChan f = Chan 0 \<and>
     call_pc f = Returned (Inl ErrRequestTimeout) \<and>
     correlData (handler s) ''id-1'' = Some (Chan 0)"
proof -
  obtain s where s: "exec (start handler0 store0)
       ([Invoke 0 0 ''id-1'', Invoke 1 2 ''id-2''] @ writes_new 0 7 @
        [Publishes 0 None, Arrives 0 3, TimerFires 0]) = Some s"
    by (simp add: run_defs)
  let ?f = "\<lparr>call_pb = 0, call_cID = ''id-1'', call_rChan = Chan 0,
    call_pc = Returned (Inl ErrRequestTimeout)\<rparr>"
  from s have f: "calls s 0 = Some ?f" and pc: "call_pc ?f = Returned (Inl ErrRequestTimeout)"
    and r: "\<forall>k r. routers s k = Some r \<longrightarrow> rh_key r \<noteq> call_cID ?f"
    and u: "\<forall>j g. calls s j = Some g \<and> call_cID g = call_cID ?f \<longrightarrow> j = 0"
    by (auto simp: run_defs split: if_splits)
  from timeout_leaves_entry[OF NewHandler0 s f pc r u] s f show ?thesis
    by simp
qed

theorem timeout_leaves_entry_counterexample:
  "Option.bind (exec (start handler0 store0)
       ([Invoke 0 0 ''id-1''] @ writes_new 0 7 @ [Publishes 0 None, TimerFires 0]))
     (\<lambda>s. map_option (\<lambda>f. (call_pc f, correlData (handler s) (call_cID f))) (calls s 0))
   = Some (Returned (Inl ErrRequestTimeout), Some (Chan 0))"
  by (simp add: run_defs)

text \<open>
  C3, as the code has it. When \<open>h.c.Publish\<close> fails, the call returns that error in the
  same step, without entering the \<open>select\<close>, and removes nothing: the handler and the
  router invocations are as they were. So in every run on a handler returned by
  \<open>NewHandler\<close> the entry registered for the call is still in the registry when the call
  returns, unless a router invocation has taken it (a message carrying the identifier was
  routed before) or another call generated the same identifier. The claim as stated, that
  \<open>Request\<close> removes the entry before it returns, fails on the run of the counterexample.
\<close>

theorem publish_failure_leaves_entry:
  assumes "NewHandler connected subscribed inp = Inr (h, routed, topic)"
    and "exec (start h st) evs = Some s"
    and "calls s i = Some f"
    and "step s (Publishes i (Some err)) = Some s'"
  shows "calls s' i = Some (f\<lparr>call_pc := Returned (Inl err)\<rparr>) \<and>
         handler s' = handler s \<and> routers s' = routers s \<and>
         (correlData (handler s') (call_cID f) = Some (call_rChan f) \<or>
          (\<exists>k r. routers s' k = Some r \<and> rh_key r = call_cID f) \<or>
          (\<exists>j g. j \<noteq> i \<and> calls s' j = Some g \<and> call_cID g = call_cID f))"
proof -
  from assms(4) have ps: "publishes_step s i (Some err) = Some s'" by simp
  note e = publishes_effect[OF ps]
  from e(1) assms(3) have c: "calls s' i = Some (f\<lparr>call_pc := Returned (Inl err)\<rparr>)"
    by auto
  have "exec (start h st) (evs @ [Publishes i (Some err)]) = Some s'"
    using assms(2,4) by (simp add: exec_snoc)
  from reachable_invariant(2)[OF assms(1) this] c
  have "correlData (handler s') (call_cID f) = Some (call_rChan f) \<or>
          (\<exists>k r. routers s' k = Some r \<and> rh_key r = call_cID f) \<or>
          (\<exists>j g. j \<noteq> i \<and> calls s' j = Some g \<and> call_cID g = call_cID f)"
    unfolding kept_def by fastforce
  with c e(2,3) show ?thesis by simp
qed

theorem publish_failure_leaves_entry_witness:
  "\<exists>s s' f. exec (start handler0 store0)
       ([Invoke 0 0 ''id-1'', Invoke 1 2 ''id-2''] @ writes_new 0 7) = Some s \<and>
     step s (Publishes 0 (Some (TransportErr ''broken pipe''))) = Some s' \<and>
     calls s' 0 = Some f \<and> call_cID f = ''id-1'' \<and>
     call_pc f = Returned (Inl (TransportErr ''broken pipe'')) \<and>
     routers s' = Map.empty \<and>
     correlData (handler s') ''id-1'' = Some (Chan 0)"
proof -
  obtain s where s: "exec (start handler0 store0)
       ([Invoke 0 0 ''id-1'', Invoke 1 2 ''id-2''] @ writes_new 0 7) = Some s"
    by (simp add: run_defs)
  let ?f = "\<lparr>call_pb = 0, call_cID = ''id-1'', call_rChan = Chan 0, call_pc = AtPublish\<rparr>"
  let ?g = "\<lparr>call_pb = 2, call_cID = ''id-2'', call_rChan = Chan 1, call_pc = AtCheck\<rparr>"
  from s have f: "calls s 0 = Some ?f" and r: "routers s = Map.empty"
    and cs: "calls s = [0 \<mapsto> ?f, 1 \<mapsto> ?g]"
    by (auto simp: run_defs)
  obtain s' where s': "step s (Publishes 0 (Some (TransportErr ''broken pipe''))) = Some s'"
    using f by (simp add: publishes_step_def)
  from publish_failure_leaves_entry[OF NewHandler0 s f s']
  have a: "calls s' 0 = Some (?f\<lparr>call_pc := Returned (Inl (TransportErr ''broken pipe''))\<rparr>)"
    and b: "routers s' = routers s"
    and d: "correlData (handler s') (call_cID ?f) = Some (call_rChan ?f) \<or>
          (\<exists>k r. routers s' k = Some r \<and> rh_key r = call_cID ?f) \<or>
          (\<exists>j g. j \<noteq> 0 \<and> calls s' j = Some g \<and> call_cID g = call_cID ?f)"
    by blast+
  from s' f cs have cs': "calls s' = [0 \<mapsto> ?f\<lparr>call_pc := Returned (Inl (TransportErr ''broken pipe''))\<rparr>, 1 \<mapsto> ?g]"
    by (auto simp: publishes_step_def)
  have no: "\<not> (\<exists>j g. j \<noteq> 0 \<and> calls s' j = Some g \<and> call_cID g = call_cID ?f)"
    unfolding cs' by (auto split: if_splits)
  have nr: "\<not> (\<exists>k r. routers s' k = Some r \<and> rh_key r = call_cID ?f)"
    using b r by simp
  from d no nr have "correlData (handler s') (call_cID ?f) = Some (call_rChan ?f)"
    by blast
  then have "correlData (handler s') ''id-1'' = Some (Chan 0)" by simp
  with s s' a b r show ?thesis by auto
qed

theorem publish_failure_leaves_entry_counterexample:
  "Option.bind (exec (start handler0 store0)
       ([Invoke 0 0 ''id-1''] @ writes_new 0 7 @
        [Publishes 0 (Some (TransportErr ''broken pipe''))]))
     (\<lambda>s. map_option (\<lambda>f. (call_pc f, correlData (handler s) (call_cID f))) (calls s 0))
   = Some (Returned (Inl (TransportErr ''broken pipe'')), Some (Chan 0))"
  by (simp add: run_defs)

section \<open>How a call returns\<close>




section \<open>The router's send\<close>

text \<open>
  C4, as the code has it. The slot is an unbuffered channel and \<open>rChan <- pb\<close> is a
  blocking send. In every run on a handler returned by \<open>NewHandler\<close>, a router invocation
  that stands at its send holds the channel of some call that generated the key; the only
  step that moves the router on is the handoff to a call waiting in its \<open>select\<close> on
  that channel, which then returns the message; and if the call owning the channel has
  already returned (timeout, cancellation, or any other way), the router invocation stays
  at its send in every continuation: the message is not discarded and the callback never
  returns. The claim as stated, that the write is non-blocking, fails on the run of the
  counterexample.
\<close>

theorem send_blocks:
  assumes "NewHandler connected subscribed inp = Inr (h, routed, topic)"
    and "exec (start h st) evs = Some s"
    and "routers s k = Some r" and "rh_pc r = AtSend"
  shows "(\<exists>i f. calls s i = Some f \<and> call_cID f = rh_key r \<and> call_rChan f = rh_rChan r) \<and>
         (\<forall>e s'. step s e = Some s' \<and> routers s' k \<noteq> Some r \<longrightarrow>
            (\<exists>j g. e = Handoff k j \<and> calls s j = Some g \<and> call_pc g = AtSelect \<and>
               call_rChan g = rh_rChan r \<and>
               calls s' j = Some (g\<lparr>call_pc := Returned (Inr (rh_pb r))\<rparr>))) \<and>
         (\<forall>i f res. calls s i = Some f \<and> call_rChan f = rh_rChan r \<and>
            call_pc f = Returned res \<longrightarrow> blocked_forever s k)"
proof (intro conjI)
  note inv = reachable_invariant(1)[OF assms(1,2)]
  from inv assms(3)
  show "\<exists>i f. calls s i = Some f \<and> call_cID f = rh_key r \<and> call_rChan f = rh_rChan r"
    unfolding invariant_def routers_owned_def owned_def by blast
  show "\<forall>e s'. step s e = Some s' \<and> routers s' k \<noteq> Some r \<longrightarrow>
            (\<exists>j g. e = Handoff k j \<and> calls s j = Some g \<and> call_pc g = AtSelect \<and>
               call_rChan g = rh_rChan r \<and>
               calls s' j = Some (g\<lparr>call_pc := Returned (Inr (rh_pb r))\<rparr>))"
    using step_send_completes[OF _ assms(3)] by blast
  show "\<forall>i f res. calls s i = Some f \<and> call_rChan f = rh_rChan r \<and>
            call_pc f = Returned res \<longrightarrow> blocked_forever s k"
    using returned_owner_blocked_forever[OF inv assms(3,4)] by blast
qed

theorem send_blocks_witness:
  "\<exists>s r f. exec (start handler0 store0)
       ([Invoke 0 0 ''id-1''] @ writes_new 0 7 @
        [Publishes 0 None, CtxDone 0 Canceled, Arrives 0 1]) = Some s \<and>
     routers s 0 = Some r \<and> rh_pc r = AtSend \<and> rh_key r = ''id-1'' \<and>
     calls s 0 = Some f \<and> call_cID f = rh_key r \<and> call_rChan f = rh_rChan r \<and>
     call_pc f = Returned (Inl (ContextErr Canceled)) \<and> blocked_forever s 0"
proof -
  obtain s where s: "exec (start handler0 store0)
       ([Invoke 0 0 ''id-1''] @ writes_new 0 7 @
        [Publishes 0 None, CtxDone 0 Canceled, Arrives 0 1]) = Some s"
    by (simp add: run_defs)
  let ?r = "\<lparr>rh_pb = 1, rh_key = ''id-1'', rh_rChan = Chan 0, rh_pc = AtSend\<rparr>"
  let ?f = "\<lparr>call_pb = 0, call_cID = ''id-1'', call_rChan = Chan 0,
    call_pc = Returned (Inl (ContextErr Canceled))\<rparr>"
  from s have r: "routers s 0 = Some ?r" and f: "calls s 0 = Some ?f"
    by (auto simp: run_defs)
  have pc: "rh_pc ?r = AtSend"
    by simp
  have own: "calls s 0 = Some ?f \<and> call_rChan ?f = rh_rChan ?r \<and>
      call_pc ?f = Returned (Inl (ContextErr Canceled))"
    using f by simp
  from send_blocks[OF NewHandler0 s r pc] own have "blocked_forever s 0"
    by blast
  with s r f show ?thesis
    by auto
qed

theorem send_blocks_counterexample:
  "Option.bind (exec (start handler0 store0)
       ([Invoke 0 0 ''id-1''] @ writes_new 0 7 @ [Publishes 0 None, TimerFires 0, Arrives 0 1]))
     (\<lambda>s. Some (routers s 0, map_option call_pc (calls s 0), blocked_forever s 0))
   = Some (Some \<lparr>rh_pb = 1, rh_key = ''id-1'', rh_rChan = Chan 0, rh_pc = AtSend\<rparr>,
           Some (Returned (Inl ErrRequestTimeout)), True)"
proof -
  obtain s where s: "exec (start handler0 store0)
       ([Invoke 0 0 ''id-1''] @ writes_new 0 7 @ [Publishes 0 None, TimerFires 0, Arrives 0 1]) = Some s"
    by (simp add: run_defs)
  let ?r = "\<lparr>rh_pb = 1, rh_key = ''id-1'', rh_rChan = Chan 0, rh_pc = AtSend\<rparr>"
  let ?f = "\<lparr>call_pb = 0, call_cID = ''id-1'', call_rChan = Chan 0,
    call_pc = Returned (Inl ErrRequestTimeout)\<rparr>"
  from s have r: "routers s 0 = Some ?r" and f: "calls s 0 = Some ?f"
    by (auto simp: run_defs)
  have "blocked_forever s 0"
    by (rule returned_owner_blocked_forever[OF reachable_invariant(1)[OF NewHandler0 s] r _ f])
      simp_all
  with r f show ?thesis
    unfolding s by simp
qed

section \<open>Replies reach the call that asked\<close>

text \<open>
  C1. In every run on a handler returned by \<open>NewHandler\<close>, with any number of calls in
  flight and any interleaving: when a call of \<open>Request\<close> has returned a reply \<open>p\<close>, the
  call was invoked with the identifier in its frame, the transport handed \<open>p\<close> to
  \<open>responseHandler\<close> at a moment when the correlation data of \<open>p\<close> were exactly that
  identifier, the router invocation that handed \<open>p\<close> over had looked up that identifier
  and sent on this call's channel, and no other call has this call's channel. So a call
  never returns a reply that echoed the identifier of a different call.
\<close>

theorem reply_matches_call:
  assumes "NewHandler connected subscribed inp = Inr (h, routed, topic)"
    and "exec (start h st) evs = Some s"
    and "calls s i = Some f" and "call_pc f = Returned (Inr p)"
  shows "Invoke i (call_pb f) (call_cID f) \<in> set evs \<and>
         arrived (start h st) evs p (call_cID f) \<and>
         (\<exists>k r. routers s k = Some r \<and> rh_pc r = Sent \<and> rh_pb r = p \<and>
            rh_key r = call_cID f \<and> rh_rChan r = call_rChan f) \<and>
         (\<forall>j g. calls s j = Some g \<and> j \<noteq> i \<longrightarrow> call_rChan g \<noteq> call_rChan f)"
proof -
  note inv = reachable_invariant(1)[OF assms(1,2)]
  from inv assms(3,4) obtain k r where r: "routers s k = Some r" "rh_pc r = Sent" "rh_pb r = p"
    "rh_key r = call_cID f" "rh_rChan r = call_rChan f"
    unfolding invariant_def replies_routed_def by blast
  have "routers (start h st) = Map.empty" by (simp add: start_def)
  from router_arrived[OF assms(2) r(1) this] r(3,4)
  have "arrived (start h st) evs p (call_cID f)" by simp
  moreover from exec_frame_origin[OF assms(2,3)]
  have "Invoke i (call_pb f) (call_cID f) \<in> set evs" by (simp add: start_def)
  moreover from inv assms(3)
  have "\<forall>j g. calls s j = Some g \<and> j \<noteq> i \<longrightarrow> call_rChan g \<noteq> call_rChan f"
    unfolding invariant_def chans_distinct_def by blast
  ultimately show ?thesis using r by blast
qed

theorem reply_matches_call_witness:
  "\<exists>s f. exec (start handler0 store0)
       ([Invoke 0 0 ''id-1'', Invoke 1 2 ''id-2''] @ writes_new 0 7 @ writes_given 1 @
        [Publishes 0 None, Publishes 1 None, Arrives 0 1, Handoff 0 0]) = Some s \<and>
     calls s 0 = Some f \<and> call_cID f = ''id-1'' \<and> call_pc f = Returned (Inr 1) \<and>
     arrived (start handler0 store0)
       ([Invoke 0 0 ''id-1'', Invoke 1 2 ''id-2''] @ writes_new 0 7 @ writes_given 1 @
        [Publishes 0 None, Publishes 1 None, Arrives 0 1, Handoff 0 0]) 1 ''id-1'' \<and>
     map_option call_pc (calls s 1) = Some AtSelect"
proof -
  let ?evs = "([Invoke 0 0 ''id-1'', Invoke 1 2 ''id-2''] @ writes_new 0 7 @ writes_given 1 @
        [Publishes 0 None, Publishes 1 None, Arrives 0 1, Handoff 0 0])"
  obtain s where s: "exec (start handler0 store0) ?evs = Some s"
    by (simp add: run_defs)
  let ?f = "\<lparr>call_pb = 0, call_cID = ''id-1'', call_rChan = Chan 0,
    call_pc = Returned (Inr 1)\<rparr>"
  from s have f: "calls s 0 = Some ?f" and g: "map_option call_pc (calls s 1) = Some AtSelect"
    by (auto simp: run_defs)
  have pc: "call_pc ?f = Returned (Inr 1)"
    by simp
  from reply_matches_call[OF NewHandler0 s f pc]
  have "arrived (start handler0 store0) ?evs 1 (call_cID ?f)"
    by blast
  with s f g show ?thesis
    by auto
qed

end
